theory Spec2Isabelle
  imports Complex_Main "HOL-Library.Multiset"
begin

section \<open>Conventions of the embedding\<close>

text \<open>
  The decision-tree engine of \<^verbatim>\<open>DT_impl.hpp\<close> is embedded function by function.

  \<^item> An Eigen vector is a list, a matrix is the list of its rows. Every read and write
    is bounds-checked: an index outside the container is undefined behaviour in C++
    and the fault \<open>OutOfBounds\<close> here.
  \<^item> A \<^verbatim>\<open>double\<close> is a \<open>real\<close>: the model computes without rounding. An operation
    whose C++ result is not a finite number (division by zero) is the fault
    \<open>NonFinite\<close>; a \<^verbatim>\<open>static_cast\<close> to an integer type of a value that does not fit
    is undefined behaviour and the fault \<open>CastOutOfRange\<close>.
  \<^item> \<^verbatim>\<open>throw std::runtime_error\<close> is the fault \<open>RuntimeError\<close>, a failing
    \<^verbatim>\<open>assert\<close> the fault \<open>AssertionFailed\<close>.
  \<^item> \<^verbatim>\<open>Index\<close> (a signed machine word) is \<open>int\<close>; the unsigned 16-bit members are
    \<open>nat\<close>, and the one place where a 64-bit sum can wrap has the \<open>mod\<close> written out.
\<close>

datatype error =
    OutOfBounds
  | NonFinite
  | CastOutOfRange
  | AssertionFailed
  | RuntimeError string

type_synonym 'a result = "error + 'a"

definition bindR :: "'a result \<Rightarrow> ('a \<Rightarrow> 'b result) \<Rightarrow> 'b result" where
  "bindR m f = (case m of Inl e \<Rightarrow> Inl e | Inr v \<Rightarrow> f v)"

text \<open>Run a list of fallible computations left to right, stopping at the first fault.\<close>

fun sequenceR :: "'a result list \<Rightarrow> 'a list result" where
  "sequenceR [] = Inr []"
| "sequenceR (m # ms) = bindR m (\<lambda>v. bindR (sequenceR ms) (\<lambda>vs. Inr (v # vs)))"

text \<open>A loop \<^verbatim>\<open>for (x : xs) s = body(x, s)\<close> whose body may fault.\<close>

fun foldR :: "('a \<Rightarrow> 's \<Rightarrow> 's result) \<Rightarrow> 'a list \<Rightarrow> 's \<Rightarrow> 's result" where
  "foldR f [] s = Inr s"
| "foldR f (x # xs) s = bindR (f x s) (foldR f xs)"

definition vec_at :: "'a list \<Rightarrow> int \<Rightarrow> 'a result" where
  "vec_at xs i = (if 0 \<le> i \<and> i < int (length xs) then Inr (xs ! nat i) else Inl OutOfBounds)"

definition vec_set :: "'a list \<Rightarrow> int \<Rightarrow> 'a \<Rightarrow> 'a list result" where
  "vec_set xs i v =
     (if 0 \<le> i \<and> i < int (length xs) then Inr (xs[nat i := v]) else Inl OutOfBounds)"

text \<open>\<^verbatim>\<open>m(r, c)\<close> on a matrix.\<close>

definition mat_at :: "'a list list \<Rightarrow> int \<Rightarrow> int \<Rightarrow> 'a result" where
  "mat_at m r c = bindR (vec_at m r) (\<lambda>row. vec_at row c)"

text \<open>\<^verbatim>\<open>v.segment(start, n)\<close>: the \<open>n\<close> cells from \<open>start\<close> on.\<close>

definition segment :: "'a list \<Rightarrow> int \<Rightarrow> nat \<Rightarrow> 'a list result" where
  "segment xs start n =
     (if 0 \<le> start \<and> start + int n \<le> int (length xs)
      then Inr (take n (drop (nat start) xs)) else Inl OutOfBounds)"

definition ddiv :: "real \<Rightarrow> real \<Rightarrow> real result" where
  "ddiv a b = (if b = 0 then Inl NonFinite else Inr (a / b))"

text \<open>Conversion of a \<^verbatim>\<open>double\<close> to an integer type truncates toward zero.\<close>

definition trunc :: "real \<Rightarrow> int" where
  "trunc x = (if 0 \<le> x then \<lfloor>x\<rfloor> else \<lceil>x\<rceil>)"

definition cast_int :: "real \<Rightarrow> int result" where
  "cast_int x =
     (if - (2 ^ 31) - 1 < x \<and> x < 2 ^ 31 then Inr (trunc x) else Inl CastOutOfRange)"

definition cast_uint16 :: "real \<Rightarrow> nat result" where
  "cast_uint16 x =
     (if - 1 < x \<and> x < 2 ^ 16 then Inr (nat (trunc x)) else Inl CastOutOfRange)"

definition cast_uint64 :: "real \<Rightarrow> nat result" where
  "cast_uint64 x =
     (if - 1 < x \<and> x < 2 ^ 64 then Inr (nat (trunc x)) else Inl CastOutOfRange)"

text \<open>\<^verbatim>\<open>v.maxCoeff()\<close> and \<^verbatim>\<open>v.maxCoeff(&index)\<close>: Eigen requires a non-empty
  vector and reports the first position of the maximum.\<close>

fun maxCoeff_from :: "real \<Rightarrow> real list \<Rightarrow> real" where
  "maxCoeff_from m [] = m"
| "maxCoeff_from m (x # xs) = maxCoeff_from (if m < x then x else m) xs"

definition maxCoeff :: "real list \<Rightarrow> real result" where
  "maxCoeff xs = (case xs of [] \<Rightarrow> Inl AssertionFailed | x # ys \<Rightarrow> Inr (maxCoeff_from x ys))"

fun maxIndex_from :: "real \<Rightarrow> nat \<Rightarrow> nat \<Rightarrow> real list \<Rightarrow> nat" where
  "maxIndex_from m best k [] = best"
| "maxIndex_from m best k (x # xs) =
     (if m < x then maxIndex_from x k (Suc k) xs else maxIndex_from m best (Suc k) xs)"

definition maxIndex :: "real list \<Rightarrow> nat result" where
  "maxIndex xs =
     (case xs of [] \<Rightarrow> Inl AssertionFailed | x # ys \<Rightarrow> Inr (maxIndex_from x 0 1 ys))"

section \<open>The tree store\<close>

text \<open>
  Modelled from the spec: the enumerations of \<^verbatim>\<open>DT_proto.hpp\<close> are not among the sources.
  The spec names three sentinels for \<open>feature_indices\<close>, distinct from the feature
  indices \<open>\<ge> 0\<close>, and one for unused surrogate slots; the code tests a real split with
  \<^verbatim>\<open>feature_indices(i) >= 0\<close>, so all of them are negative.
\<close>

definition IN_PROCESS_LEAF :: int where "IN_PROCESS_LEAF = - 1"
definition FINISHED_LEAF :: int where "FINISHED_LEAF = - 2"
definition NODE_NON_EXISTING :: int where "NODE_NON_EXISTING = - 3"
definition SURR_NON_EXISTING :: int where "SURR_NON_EXISTING = - 1"

text \<open>The impurity selector; \<open>NO_IMPURITY\<close> stands for any other stored code.\<close>

datatype impurity_kind = GINI | ENTROPY | MISCLASS | NO_IMPURITY

record decision_tree =
  tree_depth :: nat
  n_y_labels :: nat
  max_n_surr :: nat
  is_regression :: bool
  impurity_type :: impurity_kind
  feature_indices :: "int list"
  feature_thresholds :: "real list"
  is_categorical :: "int list"
  nonnull_split_count :: "real list"
  surr_indices :: "int list"
  surr_thresholds :: "real list"
  surr_status :: "int list"
  surr_agreement :: "int list"
  predictions :: "real list list"

text \<open>
  Modelled from the spec: the index helpers of \<^verbatim>\<open>DT_proto.hpp\<close> are not among the
  sources. The spec gives \<open>true_child(i) = 2i+1\<close>, \<open>false_child(i) = 2i+2\<close> and
  \<open>parent(i) = (i-1)/2\<close> for \<open>i > 0\<close>; the parent of the root is the root itself.
\<close>

definition trueChild :: "int \<Rightarrow> int" where "trueChild i = 2 * i + 1"
definition falseChild :: "int \<Rightarrow> int" where "falseChild i = 2 * i + 2"
definition parentIndex :: "int \<Rightarrow> int" where
  "parentIndex i = (if 0 < i then (i - 1) div 2 else 0)"

subsection \<open>Impurity and prediction kernel\<close>

definition computeEntropy :: "real \<Rightarrow> real result" where
  "computeEntropy p =
     (if p < 0 then Inl (RuntimeError ''unexpected negative probability'')
      else if p = 0 then Inr 0
      else Inr (- p * log 2 p))"

definition statPredict :: "decision_tree \<Rightarrow> real list \<Rightarrow> real list result" where
  "statPredict t stats =
     (if is_regression t then
        bindR (segment stats 1 1) (\<lambda>seg.
        bindR (vec_at stats 0) (\<lambda>s0.
        sequenceR (map (\<lambda>x. ddiv x s0) seg)))
      else
        bindR (segment stats 0 (n_y_labels t)) (\<lambda>hd.
        sequenceR (map (\<lambda>x. ddiv x (sum_list hd)) hd)))"

definition impurity :: "decision_tree \<Rightarrow> real list \<Rightarrow> real result" where
  "impurity t stats =
     (if is_regression t then
        bindR (vec_at stats 2) (\<lambda>s2.
        bindR (vec_at stats 0) (\<lambda>s0.
        bindR (vec_at stats 1) (\<lambda>s1.
        bindR (ddiv s2 s0) (\<lambda>a.
        bindR (ddiv s1 s0) (\<lambda>b.
        Inr (a - b ^ 2))))))
      else
        bindR (statPredict t stats) (\<lambda>proportions.
        case impurity_type t of
          GINI \<Rightarrow> Inr (1 - sum_list (map (\<lambda>p. p * p) proportions))
        | ENTROPY \<Rightarrow>
            bindR (sequenceR (map computeEntropy proportions)) (\<lambda>es. Inr (sum_list es))
        | MISCLASS \<Rightarrow> bindR (maxCoeff proportions) (\<lambda>m. Inr (1 - m))
        | NO_IMPURITY \<Rightarrow>
            Inl (RuntimeError ''No impurity function set for a classification tree'')))"

definition statCount :: "real list \<Rightarrow> nat result" where
  "statCount stats = bindR (vec_at stats (int (length stats) - 1)) cast_uint64"

definition statWeightedCount :: "decision_tree \<Rightarrow> real list \<Rightarrow> real result" where
  "statWeightedCount t stats =
     (if is_regression t then vec_at stats 0
      else bindR (segment stats 0 (n_y_labels t)) (\<lambda>hd. Inr (sum_list hd)))"

subsection \<open>Depth recomputation\<close>

text \<open>The inner scan of one level; it stops at the first existing slot.\<close>

fun level_all_non_existing :: "int list \<Rightarrow> int \<Rightarrow> int list \<Rightarrow> bool result" where
  "level_all_non_existing fi leaf_start_index [] = Inr True"
| "level_all_non_existing fi leaf_start_index (leaf_index # rest) =
     bindR (vec_at fi (leaf_start_index + leaf_index)) (\<lambda>f.
       if f \<noteq> NODE_NON_EXISTING then Inr False
       else level_all_non_existing fi leaf_start_index rest)"

text \<open>The loop over \<open>depth_counter\<close>; the level width is cast to 16 bits.\<close>

fun recompute_loop :: "decision_tree \<Rightarrow> nat list \<Rightarrow> nat result" where
  "recompute_loop t [] = Inr (tree_depth t)"
| "recompute_loop t (depth_counter # rest) =
     bindR (cast_uint16 (2 ^ (depth_counter - 1))) (\<lambda>n_leaf_nodes.
     bindR (level_all_non_existing (feature_indices t) (int n_leaf_nodes - 1)
              (map int [0..<n_leaf_nodes])) (\<lambda>all_non_existing.
       if all_non_existing then Inr (depth_counter - 1)
       else recompute_loop t rest))"

definition recomputeTreeDepth :: "decision_tree \<Rightarrow> nat result" where
  "recomputeTreeDepth t =
     (if length (feature_indices t) \<le> 1 \<or> tree_depth t \<le> 1 then Inr (tree_depth t)
      else recompute_loop t [2..<Suc (tree_depth t)])"

section \<open>The statistics accumulator\<close>

record tree_accumulator =
  n_rows :: nat
  terminated :: bool
  n_bins :: nat
  n_cat_features :: nat
  n_con_features :: nat
  total_n_cat_levels :: nat
  n_leaf_nodes :: nat
  stats_per_split :: nat
  weights_as_rows :: bool
  cat_levels_cumsum :: "int list"
  cat_stats :: "real list list"
  con_stats :: "real list list"
  node_stats :: "real list list"

text \<open>\<^verbatim>\<open>m.row(r).segment(c, n) += vs\<close> with \<open>n = length vs\<close>.\<close>

definition add_cells :: "real list \<Rightarrow> nat \<Rightarrow> real list \<Rightarrow> real list" where
  "add_cells row c vs =
     map (\<lambda>j. if c \<le> j \<and> j < c + length vs then row ! j + vs ! (j - c) else row ! j)
       [0..<length row]"

definition add_segment :: "real list list \<Rightarrow> int \<Rightarrow> int \<Rightarrow> real list \<Rightarrow> real list list result" where
  "add_segment m r c vs =
     (if 0 \<le> r \<and> r < int (length m) \<and> 0 \<le> c \<and> c + int (length vs) \<le> int (length (m ! nat r))
      then Inr (m[nat r := add_cells (m ! nat r) (nat c) vs])
      else Inl OutOfBounds)"

text \<open>\<^verbatim>\<open>m.row(r) += vs\<close>: the operands must have the same size.\<close>

definition add_row :: "real list list \<Rightarrow> int \<Rightarrow> real list \<Rightarrow> real list list result" where
  "add_row m r vs =
     (if 0 \<le> r \<and> r < int (length m) \<and> length (m ! nat r) = length vs
      then Inr (m[nat r := add_cells (m ! nat r) 0 vs])
      else Inl OutOfBounds)"

text \<open>\<^verbatim>\<open>a += b\<close> on matrices of the same shape.\<close>

definition same_shape :: "real list list \<Rightarrow> real list list \<Rightarrow> bool" where
  "same_shape a b = list_all2 (\<lambda>r s. length r = length s) a b"

definition madd :: "real list list \<Rightarrow> real list list \<Rightarrow> real list list result" where
  "madd a b = (if same_shape a b then Inr (map2 (map2 (+)) a b) else Inl OutOfBounds)"

text \<open>
  The stats vector of one row, built by the same statements in \<^verbatim>\<open>updateNodeStats\<close>
  and \<^verbatim>\<open>updateStats\<close>. The comma initialiser of the regression branch fills exactly
  four cells.
\<close>

definition row_stats :: "tree_accumulator \<Rightarrow> bool \<Rightarrow> real \<Rightarrow> real \<Rightarrow> real list result" where
  "row_stats a is_reg response weight =
     bindR (if weights_as_rows a then cast_int weight else Inr 1) (\<lambda>n_rows_int.
       if is_reg then
         (let w_response = weight * response in
          if stats_per_split a = 4
          then Inr [weight, w_response, w_response * response, of_int n_rows_int]
          else Inl OutOfBounds)
       else
         bindR (cast_uint16 response) (\<lambda>k.
         bindR (vec_set (replicate (stats_per_split a) 0) (int k) weight) (\<lambda>stats.
         vec_set stats (int (stats_per_split a) - 1) (of_int n_rows_int))))"

definition updateNodeStats ::
  "tree_accumulator \<Rightarrow> bool \<Rightarrow> int \<Rightarrow> real \<Rightarrow> real \<Rightarrow> tree_accumulator result" where
  "updateNodeStats a is_reg node_index response weight =
     (if \<not> is_reg \<and> response < 0 then Inl AssertionFailed
      else
        bindR (row_stats a is_reg response weight) (\<lambda>stats.
        bindR (add_row (node_stats a) node_index stats) (\<lambda>m.
        Inr (a\<lparr>node_stats := m\<rparr>))))"

definition updateStats ::
  "tree_accumulator \<Rightarrow> bool \<Rightarrow> bool \<Rightarrow> int \<Rightarrow> int \<Rightarrow> real \<Rightarrow> real \<Rightarrow> tree_accumulator result" where
  "updateStats a is_reg is_cat row_index stats_index response weight =
     bindR (row_stats a is_reg response weight) (\<lambda>stats.
       if is_cat then
         bindR (add_segment (cat_stats a) row_index stats_index stats) (\<lambda>m.
         Inr (a\<lparr>cat_stats := m\<rparr>))
       else
         bindR (add_segment (con_stats a) row_index stats_index stats) (\<lambda>m.
         Inr (a\<lparr>con_stats := m\<rparr>)))"

text \<open>
  Merging another accumulation state. \<^verbatim>\<open>inOther.empty()\<close> is declared in
  \<^verbatim>\<open>DT_proto.hpp\<close>, which is not among the sources: the test is the parameter \<open>is_empty\<close>.
\<close>

definition merge ::
  "(tree_accumulator \<Rightarrow> bool) \<Rightarrow> tree_accumulator \<Rightarrow> tree_accumulator \<Rightarrow> tree_accumulator result"
  where
  "merge is_empty a inOther =
     (if \<not> is_empty inOther then
        (if n_bins a \<noteq> n_bins inOther \<or> n_cat_features a \<noteq> n_cat_features inOther
            \<or> n_con_features a \<noteq> n_con_features inOther
         then Inr (a\<lparr>terminated := True\<rparr>)
         else
           bindR (madd (cat_stats a) (cat_stats inOther)) (\<lambda>cs.
           bindR (madd (con_stats a) (con_stats inOther)) (\<lambda>ns.
           bindR (madd (node_stats a) (node_stats inOther)) (\<lambda>ds.
           Inr (a\<lparr>cat_stats := cs, con_stats := ns, node_stats := ds\<rparr>)))))
      else Inr a)"

section \<open>Inference\<close>

text \<open>
  \<^verbatim>\<open>isNull(value, is_categorical)\<close> is declared in \<^verbatim>\<open>DT_proto.hpp\<close>, which is not among
  the sources, and the spec has the caller inject it: it is the parameter \<open>isNull\<close> of
  every function that reads a feature. A row is its vector of categorical codes and its
  vector of continuous values.
\<close>

type_synonym null_test = "real \<Rightarrow> bool \<Rightarrow> bool"

definition getMajorityCount :: "decision_tree \<Rightarrow> int \<Rightarrow> nat result" where
  "getMajorityCount t node_index =
     bindR (vec_at (feature_indices t) node_index) (\<lambda>f.
       if f < 0 then Inl (RuntimeError ''Requested count for a leaf/non-existing node'')
       else
         bindR (vec_at (nonnull_split_count t) (node_index * 2)) (\<lambda>tc.
         bindR (cast_uint64 tc) (\<lambda>true_count.
         bindR (vec_at (nonnull_split_count t) (node_index * 2 + 1)) (\<lambda>fc.
         bindR (cast_uint64 fc) (\<lambda>false_count.
         Inr (if true_count \<ge> false_count then true_count else false_count))))))"

definition getMajoritySplit :: "decision_tree \<Rightarrow> int \<Rightarrow> bool result" where
  "getMajoritySplit t node_index =
     bindR (vec_at (feature_indices t) node_index) (\<lambda>f.
       if f < 0 then Inl (RuntimeError ''Requested count for a leaf/non-existing node'')
       else
         bindR (vec_at (nonnull_split_count t) (node_index * 2)) (\<lambda>tc.
         bindR (cast_uint64 tc) (\<lambda>true_count.
         bindR (vec_at (nonnull_split_count t) (node_index * 2 + 1)) (\<lambda>fc.
         bindR (cast_uint64 fc) (\<lambda>false_count.
         Inr (true_count \<ge> false_count))))))"

text \<open>The loop of \<^verbatim>\<open>getSurrSplit\<close> over the surrogate slots of one node.\<close>

fun getSurrSplit_loop ::
  "null_test \<Rightarrow> decision_tree \<Rightarrow> int \<Rightarrow> int list \<Rightarrow> real list \<Rightarrow> int list \<Rightarrow> bool result"
  where
  "getSurrSplit_loop isNull t node_index cat_features con_features [] =
     getMajoritySplit t node_index"
| "getSurrSplit_loop isNull t node_index cat_features con_features (surr_base_index # rest) =
     bindR (vec_at (surr_indices t) surr_base_index) (\<lambda>surr_feat_index.
       if surr_feat_index < 0 then getMajoritySplit t node_index
       else
         bindR (vec_at (surr_thresholds t) surr_base_index) (\<lambda>surr_feat_threshold.
         bindR (vec_at (surr_status t) surr_base_index) (\<lambda>status.
           if \<bar>status\<bar> = 1 then
             bindR (vec_at cat_features surr_feat_index) (\<lambda>v.
               if \<not> isNull (of_int v) True then
                 (let split_response = (of_int v \<le> surr_feat_threshold)
                  in Inr (if status > 0 then split_response else \<not> split_response))
               else getSurrSplit_loop isNull t node_index cat_features con_features rest)
           else
             bindR (vec_at con_features surr_feat_index) (\<lambda>v.
               if \<not> isNull v False then
                 (let split_response = (v \<le> surr_feat_threshold)
                  in Inr (if status > 0 then split_response else \<not> split_response))
               else getSurrSplit_loop isNull t node_index cat_features con_features rest))))"

definition getSurrSplit ::
  "null_test \<Rightarrow> decision_tree \<Rightarrow> int \<Rightarrow> int list \<Rightarrow> real list \<Rightarrow> bool result" where
  "getSurrSplit isNull t node_index cat_features con_features =
     getSurrSplit_loop isNull t node_index cat_features con_features
       [node_index * int (max_n_surr t)..(node_index + 1) * int (max_n_surr t) - 1]"

text \<open>The body of the loop of \<^verbatim>\<open>search\<close>: the branch taken at an internal node.\<close>

definition search_branch ::
  "null_test \<Rightarrow> decision_tree \<Rightarrow> int list \<Rightarrow> real list \<Rightarrow> int \<Rightarrow> int \<Rightarrow> bool result" where
  "search_branch isNull t cat_features con_features current feature_index =
     bindR (vec_at (is_categorical t) current) (\<lambda>is_cat.
       if is_cat \<noteq> 0 then
         bindR (vec_at cat_features feature_index) (\<lambda>v.
           if isNull (of_int v) True
           then getSurrSplit isNull t current cat_features con_features
           else bindR (vec_at (feature_thresholds t) current) (\<lambda>th. Inr (of_int v \<le> th)))
       else
         bindR (vec_at con_features feature_index) (\<lambda>v.
           if isNull v False
           then getSurrSplit isNull t current cat_features con_features
           else bindR (vec_at (feature_thresholds t) current) (\<lambda>th. Inr (v \<le> th))))"

function search_loop ::
  "null_test \<Rightarrow> decision_tree \<Rightarrow> int list \<Rightarrow> real list \<Rightarrow> int \<Rightarrow> int result" where
  "search_loop isNull t cat_features con_features current =
     (case vec_at (feature_indices t) current of
        Inl e \<Rightarrow> Inl e
      | Inr feature_index \<Rightarrow>
          if feature_index \<noteq> IN_PROCESS_LEAF \<and> feature_index \<noteq> FINISHED_LEAF then
            if feature_index = NODE_NON_EXISTING then Inl AssertionFailed
            else
              (case search_branch isNull t cat_features con_features current feature_index of
                 Inl e \<Rightarrow> Inl e
               | Inr b \<Rightarrow>
                   search_loop isNull t cat_features con_features
                     (if b then trueChild current else falseChild current))
          else Inr current)"
  by pat_completeness auto
termination
proof (relation "measure (\<lambda>(isNull, t, cat, con, current). nat (int (length (feature_indices t)) - current))")
  show "wf (measure (\<lambda>(isNull, t, cat, con, current). nat (int (length (feature_indices t)) - current)))"
    by simp
next
  fix isNull :: null_test and t :: decision_tree and cat_features :: "int list"
    and con_features :: "real list" and current x2 :: int and x2a :: bool
  assume "vec_at (feature_indices t) current = Inr x2"
  then have "0 \<le> current" "current < int (length (feature_indices t))"
    by (simp_all add: vec_at_def split: if_splits)
  then show "((isNull, t, cat_features, con_features, if x2a then trueChild current else falseChild current),
          isNull, t, cat_features, con_features, current)
         \<in> measure (\<lambda>(isNull, t, cat, con, current). nat (int (length (feature_indices t)) - current))"
    by (simp add: trueChild_def falseChild_def)
qed

definition search :: "null_test \<Rightarrow> decision_tree \<Rightarrow> int list \<Rightarrow> real list \<Rightarrow> int result" where
  "search isNull t cat_features con_features = search_loop isNull t cat_features con_features 0"

section \<open>Feeding rows to the accumulator\<close>

subsection \<open>Column indices of the statistics matrices\<close>

definition computeSubIndex :: "tree_accumulator \<Rightarrow> int \<Rightarrow> int \<Rightarrow> bool \<Rightarrow> int" where
  "computeSubIndex a start_index relative_index is_split_true =
     (let col_index = int (stats_per_split a) * 2 * (start_index + relative_index)
      in if is_split_true then col_index else col_index + int (stats_per_split a))"

definition indexConStats :: "tree_accumulator \<Rightarrow> int \<Rightarrow> int \<Rightarrow> bool \<Rightarrow> int result" where
  "indexConStats a feature_index bin_index is_split_true =
     (if \<not> feature_index < int (n_con_features a) then Inl AssertionFailed
      else if \<not> bin_index < int (n_bins a) then Inl AssertionFailed
      else Inr (computeSubIndex a (feature_index * int (n_bins a)) bin_index is_split_true))"

text \<open>The cumulative level count is read into an \<^verbatim>\<open>unsigned int\<close>.\<close>

definition indexCatStats :: "tree_accumulator \<Rightarrow> int \<Rightarrow> int \<Rightarrow> bool \<Rightarrow> int result" where
  "indexCatStats a feature_index cat_value is_split_true =
     (if \<not> feature_index < int (n_cat_features a) then Inl AssertionFailed
      else
        bindR (if feature_index = 0 then Inr 0
               else vec_at (cat_levels_cumsum a) (feature_index - 1)) (\<lambda>c.
        Inr (computeSubIndex a (c mod 2 ^ 32) cat_value is_split_true)))"

subsection \<open>Feeding a row: the primary pass\<close>

text \<open>
  A training tuple: the tree, the categorical and continuous features, the response,
  the weight, the level counts and the bin boundaries. A response that is not a finite
  double is \<open>None\<close>.
\<close>

type_synonym tuple_type =
  "decision_tree \<times> int list \<times> real list \<times> real option \<times> real \<times> int list \<times> real list list"

definition update_cat_feature ::
  "null_test \<Rightarrow> bool \<Rightarrow> int \<Rightarrow> int list \<Rightarrow> int list \<Rightarrow> real \<Rightarrow> real \<Rightarrow> nat
     \<Rightarrow> tree_accumulator \<Rightarrow> tree_accumulator result" where
  "update_cat_feature isNull is_reg row_index cat_features cat_levels response weight i a =
     bindR (vec_at cat_levels (int i)) (\<lambda>n_levels.
       foldR (\<lambda>j a.
           bindR (vec_at cat_features (int i)) (\<lambda>v.
             if \<not> isNull (of_int v) True then
               bindR (indexCatStats a (int i) j (v \<le> j)) (\<lambda>col_index.
               updateStats a is_reg True row_index col_index response weight)
             else Inr a))
         [0..n_levels - 1] a)"

definition update_con_feature ::
  "null_test \<Rightarrow> bool \<Rightarrow> int \<Rightarrow> real list \<Rightarrow> real list list \<Rightarrow> real \<Rightarrow> real \<Rightarrow> nat
     \<Rightarrow> tree_accumulator \<Rightarrow> tree_accumulator result" where
  "update_con_feature isNull is_reg row_index con_features con_splits response weight i a =
     foldR (\<lambda>j a.
         bindR (vec_at con_features (int i)) (\<lambda>v.
           if \<not> isNull v False then
             bindR (mat_at con_splits (int i) j) (\<lambda>boundary.
             bindR (indexConStats a (int i) j (v \<le> boundary)) (\<lambda>col_index.
             updateStats a is_reg False row_index col_index response weight))
           else Inr a))
       [0..int (n_bins a) - 1] a"

definition accumulate :: "null_test \<Rightarrow> tree_accumulator \<Rightarrow> tuple_type \<Rightarrow> tree_accumulator result"
  where
  "accumulate isNull a inTuple =
     (case inTuple of (dt, cat_features, con_features, response, weight, cat_levels, con_splits) \<Rightarrow>
      if \<not> terminated a then
        (case response of
           None \<Rightarrow> Inr (a\<lparr>terminated := True\<rparr>)
         | Some y \<Rightarrow>
             if length cat_features + length con_features > 65535
             then Inr (a\<lparr>terminated := True\<rparr>)
             else if n_cat_features a \<noteq> length cat_features mod 65536
             then Inr (a\<lparr>terminated := True\<rparr>)
             else if n_con_features a \<noteq> length con_features mod 65536
             then Inr (a\<lparr>terminated := True\<rparr>)
             else
               (let n_non_leaf_nodes = (int (n_leaf_nodes a) - 1) mod 65536 in
                bindR (search isNull dt cat_features con_features) (\<lambda>dt_search_index.
                bindR (vec_at (feature_indices dt) dt_search_index) (\<lambda>f.
                bindR
                  (if f \<noteq> FINISHED_LEAF \<and> f \<noteq> NODE_NON_EXISTING then
                     (let row_index = dt_search_index - n_non_leaf_nodes in
                      if row_index < 0 then Inl AssertionFailed
                      else
                        bindR (updateNodeStats a (is_regression dt) row_index y weight) (\<lambda>a1.
                        bindR (foldR (update_cat_feature isNull (is_regression dt) row_index
                                        cat_features cat_levels y weight)
                                 [0..<n_cat_features a] a1) (\<lambda>a2.
                        foldR (update_con_feature isNull (is_regression dt) row_index
                                 con_features con_splits y weight)
                          [0..<n_con_features a] a2)))
                   else Inr a) (\<lambda>a'.
                Inr (a'\<lparr>n_rows := (n_rows a' + 1) mod 2 ^ 64\<rparr>))))))
      else Inr a)"

subsection \<open>Feeding a row: the surrogate pass\<close>

definition updateSurrStats ::
  "tree_accumulator \<Rightarrow> bool \<Rightarrow> bool \<Rightarrow> int \<Rightarrow> int \<Rightarrow> int \<Rightarrow> tree_accumulator result" where
  "updateSurrStats a is_cat surr_agrees row_index stats_index dup_count =
     bindR (if stats_per_split a = 2
            then Inr (if surr_agrees then [of_int dup_count, 0] else [0, of_int dup_count])
            else Inl OutOfBounds) (\<lambda>stats.
       if is_cat then
         bindR (add_segment (cat_stats a) row_index stats_index stats) (\<lambda>m.
         Inr (a\<lparr>cat_stats := m\<rparr>))
       else
         bindR (add_segment (con_stats a) row_index stats_index stats) (\<lambda>m.
         Inr (a\<lparr>con_stats := m\<rparr>)))"

type_synonym surr_tuple_type =
  "decision_tree \<times> int list \<times> real list \<times> int list \<times> real list list \<times> int"

definition surr_cat_feature ::
  "null_test \<Rightarrow> bool \<Rightarrow> int \<Rightarrow> bool \<Rightarrow> int \<Rightarrow> int list \<Rightarrow> int list \<Rightarrow> int \<Rightarrow> nat
     \<Rightarrow> tree_accumulator \<Rightarrow> tree_accumulator result" where
  "surr_cat_feature isNull is_primary_cat primary_index is_primary_true row_index
       cat_features cat_levels dup_count i a =
     (if is_primary_cat \<and> int i = primary_index then Inr a
      else
        bindR (vec_at cat_levels (int i)) (\<lambda>n_levels.
          foldR (\<lambda>j a.
              bindR (vec_at cat_features (int i)) (\<lambda>v.
                if \<not> isNull (of_int v) True then
                  (let is_surrogate_true = (v \<le> j) in
                   bindR (indexCatStats a (int i) j is_surrogate_true) (\<lambda>col_index.
                   updateSurrStats a True (is_primary_true = is_surrogate_true)
                     row_index col_index dup_count))
                else Inr a))
            [0..n_levels - 1] a))"

definition surr_con_feature ::
  "null_test \<Rightarrow> bool \<Rightarrow> int \<Rightarrow> bool \<Rightarrow> int \<Rightarrow> real list \<Rightarrow> real list list \<Rightarrow> int \<Rightarrow> nat
     \<Rightarrow> tree_accumulator \<Rightarrow> tree_accumulator result" where
  "surr_con_feature isNull is_primary_cat primary_index is_primary_true row_index
       con_features con_splits dup_count i a =
     (if \<not> is_primary_cat \<and> int i = primary_index then Inr a
      else
        foldR (\<lambda>j a.
            bindR (vec_at con_features (int i)) (\<lambda>v.
              if \<not> isNull v False then
                bindR (mat_at con_splits (int i) j) (\<lambda>boundary.
                  (let is_surrogate_true = (v \<le> boundary) in
                   bindR (indexConStats a (int i) j is_surrogate_true) (\<lambda>col_index.
                   updateSurrStats a False (is_primary_true = is_surrogate_true)
                     row_index col_index dup_count)))
              else Inr a))
          [0..int (n_bins a) - 1] a)"

text \<open>The read of the row's primary feature value (lines 1635 to 1638).\<close>

definition read_primary_val ::
  "decision_tree \<Rightarrow> int list \<Rightarrow> real list \<Rightarrow> int \<Rightarrow> (int \<times> bool \<times> real) result" where
  "read_primary_val dt cat_features con_features dt_parent_index =
     bindR (vec_at (feature_indices dt) dt_parent_index) (\<lambda>primary_index.
     bindR (vec_at (is_categorical dt) dt_parent_index) (\<lambda>c.
       (let is_primary_cat = (c \<noteq> 0) in
        bindR (if is_primary_cat
               then bindR (vec_at cat_features primary_index) (\<lambda>v. Inr (of_int v))
               else vec_at con_features primary_index) (\<lambda>primary_val.
        Inr (primary_index, is_primary_cat, primary_val)))))"

definition accumulate_surr ::
  "null_test \<Rightarrow> tree_accumulator \<Rightarrow> surr_tuple_type \<Rightarrow> tree_accumulator result" where
  "accumulate_surr isNull a inTuple =
     (case inTuple of (dt, cat_features, con_features, cat_levels, con_splits, dup_count) \<Rightarrow>
      if length cat_features + length con_features > 65535 then Inr a
      else if n_cat_features a \<noteq> length cat_features mod 65536 then Inr a
      else if n_con_features a \<noteq> length con_features mod 65536 then Inr a
      else
        (let n_surr_nodes = n_leaf_nodes a;
             n_non_surr_nodes = (int n_surr_nodes - 1) mod 65536 in
         bindR (search isNull dt cat_features con_features) (\<lambda>leaf.
           (let dt_parent_index = parentIndex leaf in
            bindR (read_primary_val dt cat_features con_features dt_parent_index)
              (\<lambda>(primary_index, is_primary_cat, primary_val).
              if dt_parent_index \<ge> n_non_surr_nodes \<and> \<not> isNull primary_val is_primary_cat then
                bindR (vec_at (feature_thresholds dt) dt_parent_index) (\<lambda>primary_threshold.
                  (let is_primary_true = (primary_val \<le> primary_threshold) in
                   bindR
                     (if primary_index \<ge> 0 then
                        (let row_index = dt_parent_index - n_non_surr_nodes in
                         if \<not> (row_index \<ge> 0 \<and> row_index < int (length (cat_stats a))
                                 \<and> row_index < int (length (con_stats a)))
                         then Inl AssertionFailed
                         else
                           bindR (foldR (surr_cat_feature isNull is_primary_cat primary_index
                                           is_primary_true row_index cat_features cat_levels
                                           dup_count)
                                    [0..<n_cat_features a] a) (\<lambda>a1.
                           foldR (surr_con_feature isNull is_primary_cat primary_index
                                    is_primary_true row_index con_features con_splits dup_count)
                             [0..<n_con_features a] a1))
                      else Inr a) (\<lambda>a'.
                   Inr (a'\<lparr>n_rows := (n_rows a' + 1) mod 2 ^ 64\<rparr>))))
              else Inr a)))))"

section \<open>The expander\<close>

definition impurityGain :: "decision_tree \<Rightarrow> real list \<Rightarrow> nat \<Rightarrow> real result" where
  "impurityGain t combined_stats sps =
     bindR (segment combined_stats 0 sps) (\<lambda>true_stats.
     bindR (statWeightedCount t true_stats) (\<lambda>true_count.
     bindR (segment combined_stats (int sps) sps) (\<lambda>false_stats.
     bindR (statWeightedCount t false_stats) (\<lambda>false_count.
       (let total_count = true_count + false_count in
        if true_count = 0 \<or> false_count = 0 then Inr 0
        else
          bindR (ddiv true_count total_count) (\<lambda>true_weight.
          bindR (ddiv false_count total_count) (\<lambda>false_weight.
            (let stats_sum = map2 (+) true_stats false_stats in
             bindR (impurity t stats_sum) (\<lambda>whole.
             bindR (impurity t true_stats) (\<lambda>left.
             bindR (impurity t false_stats) (\<lambda>right.
             Inr (whole - true_weight * left - false_weight * right))))))))))))"

definition isChildPure :: "decision_tree \<Rightarrow> real list \<Rightarrow> bool result" where
  "isChildPure t stats =
     (let epsilon = 1 / 100000 in
      if is_regression t then
        bindR (vec_at stats 1) (\<lambda>s1.
        bindR (vec_at stats 0) (\<lambda>s0.
        bindR (ddiv s1 s0) (\<lambda>mean.
        bindR (vec_at stats 2) (\<lambda>s2.
        bindR (ddiv s2 s0) (\<lambda>q.
          (let variance = q - mean ^ 2 in Inr (variance < epsilon * mean * mean)))))))
      else
        bindR (segment stats 0 (n_y_labels t)) (\<lambda>hd.
          (let total_count = sum_list hd in
           bindR (maxCoeff hd) (\<lambda>mx.
             (let non_max_vals = total_count - mx in
              bindR (ddiv non_max_vals total_count) (\<lambda>q. Inr (q < 100 * epsilon)))))))"

text \<open>The counts are 64-bit unsigned: their sum wraps.\<close>

definition shouldSplit ::
  "decision_tree \<Rightarrow> real list \<Rightarrow> nat \<Rightarrow> nat \<Rightarrow> nat \<Rightarrow> nat \<Rightarrow> bool result" where
  "shouldSplit t combined_stats min_split min_bucket sps max_depth =
     (let thresh_min_bucket = (if min_bucket = 0 then 1 else min_bucket) in
      bindR (segment combined_stats 0 sps) (\<lambda>true_stats.
      bindR (statCount true_stats) (\<lambda>true_count.
      bindR (segment combined_stats (int sps) sps) (\<lambda>false_stats.
      bindR (statCount false_stats) (\<lambda>false_count.
        Inr ((true_count + false_count) mod 2 ^ 64 \<ge> min_split
             \<and> true_count \<ge> thresh_min_bucket
             \<and> false_count \<ge> thresh_min_bucket
             \<and> tree_depth t \<le> max_depth))))))"

text \<open>
  Growing the tree by one level. The arrays of a tree are views whose lengths follow
  from its header (\<^verbatim>\<open>bind\<close>); a record whose arrays have other lengths is not a tree the
  code can hold, and the copy of the old contents into the low half faults on it.
\<close>

definition n_labels :: "decision_tree \<Rightarrow> nat" where
  "n_labels t = (if is_regression t then n_y_labels t else n_y_labels t + 1)"

definition bound_to_header :: "decision_tree \<Rightarrow> bool" where
  "bound_to_header t \<longleftrightarrow>
     (let n_nodes = 2 ^ tree_depth t - 1 in
      length (feature_indices t) = n_nodes \<and> length (feature_thresholds t) = n_nodes
      \<and> length (is_categorical t) = n_nodes
      \<and> length (nonnull_split_count t) = n_nodes * 2
      \<and> length (surr_indices t) = n_nodes * max_n_surr t
      \<and> length (surr_thresholds t) = n_nodes * max_n_surr t
      \<and> length (surr_status t) = n_nodes * max_n_surr t
      \<and> length (surr_agreement t) = n_nodes * max_n_surr t
      \<and> length (predictions t) = n_nodes
      \<and> list_all (\<lambda>row. length row = n_labels t) (predictions t))"

definition incrementInPlace :: "decision_tree \<Rightarrow> decision_tree result" where
  "incrementInPlace t =
     (if \<not> bound_to_header t then Inl OutOfBounds
      else
        (let n_orig_nodes = 2 ^ tree_depth t - 1;
             n_new_leaves = n_orig_nodes + 1;
             m = max_n_surr t
         in Inr (t\<lparr>tree_depth := (tree_depth t + 1) mod 65536,
              feature_indices := feature_indices t @ replicate n_new_leaves NODE_NON_EXISTING,
              feature_thresholds := feature_thresholds t @ replicate n_new_leaves 0,
              is_categorical := is_categorical t @ replicate n_new_leaves 0,
              nonnull_split_count := nonnull_split_count t @ replicate (n_new_leaves * 2) 0,
              surr_indices := surr_indices t @ replicate (n_new_leaves * m) SURR_NON_EXISTING,
              surr_thresholds := surr_thresholds t @ replicate (n_new_leaves * m) 0,
              surr_status := surr_status t @ replicate (n_new_leaves * m) 0,
              surr_agreement := surr_agreement t @ replicate (n_new_leaves * m) 0,
              predictions := predictions t @ replicate n_new_leaves (replicate (n_labels t) 0)\<rparr>)))"

text \<open>\<^verbatim>\<open>m.row(r) = v\<close>: the row and the vector must have the same size.\<close>

definition set_row :: "real list list \<Rightarrow> int \<Rightarrow> real list \<Rightarrow> real list list result" where
  "set_row m r v =
     (if 0 \<le> r \<and> r < int (length m) \<and> length (m ! nat r) = length v
      then Inr (m[nat r := v]) else Inl OutOfBounds)"

definition updatePrimarySplit ::
  "decision_tree \<Rightarrow> int \<Rightarrow> int \<Rightarrow> real \<Rightarrow> bool \<Rightarrow> nat \<Rightarrow> real list \<Rightarrow> real list
     \<Rightarrow> (decision_tree \<times> bool) result" where
  "updatePrimarySplit t node_index max_feat max_threshold max_is_cat min_split true_stats false_stats =
     bindR (vec_set (feature_indices t) node_index max_feat) (\<lambda>fi1.
     bindR (vec_set (is_categorical t) node_index (if max_is_cat then 1 else 0)) (\<lambda>ic.
     bindR (vec_set (feature_thresholds t) node_index max_threshold) (\<lambda>th.
     bindR (vec_set fi1 (trueChild node_index) IN_PROCESS_LEAF) (\<lambda>fi2.
     bindR (set_row (predictions t) (trueChild node_index) true_stats) (\<lambda>p1.
     bindR (vec_set fi2 (falseChild node_index) IN_PROCESS_LEAF) (\<lambda>fi3.
     bindR (set_row p1 (falseChild node_index) false_stats) (\<lambda>p2.
     bindR (statCount true_stats) (\<lambda>true_count.
     bindR (statCount false_stats) (\<lambda>false_count.
     bindR (vec_set (nonnull_split_count t) (node_index * 2) (real true_count)) (\<lambda>c1.
     bindR (vec_set c1 (node_index * 2 + 1) (real false_count)) (\<lambda>c2.
     bindR (bindR (isChildPure t true_stats) (\<lambda>pure_true.
              if \<not> pure_true then Inr False
              else bindR (isChildPure t false_stats) (\<lambda>pure_false.
                Inr (pure_false \<and> true_count < min_split \<and> false_count < min_split))))
       (\<lambda>children_wont_split.
     Inr (t\<lparr>feature_indices := fi3, is_categorical := ic, feature_thresholds := th,
            predictions := p2, nonnull_split_count := c2\<rparr>, children_wont_split)))))))))))))"

text \<open>
  The best candidate seen so far. \<open>max_impurity_gain = None\<close> is the initial \<open>-\<infinity>\<close>, which
  every gain exceeds.
\<close>

record best_split =
  max_feat :: int
  max_bin :: int
  max_is_cat :: bool
  max_impurity_gain :: "real option"
  max_stats :: "real list"

definition no_split :: best_split where
  "no_split = \<lparr>max_feat = - 1, max_bin = - 1, max_is_cat = False,
                max_impurity_gain = None, max_stats = []\<rparr>"

definition consider_split ::
  "decision_tree \<Rightarrow> nat \<Rightarrow> real list \<Rightarrow> int \<Rightarrow> int \<Rightarrow> bool \<Rightarrow> best_split \<Rightarrow> best_split result"
  where
  "consider_split t sps candidate_stats f v is_cat best =
     bindR (impurityGain t candidate_stats sps) (\<lambda>gain.
       Inr (if (case max_impurity_gain best of None \<Rightarrow> True | Some m \<Rightarrow> gain > m)
            then \<lparr>max_feat = f, max_bin = v, max_is_cat = is_cat,
                  max_impurity_gain = Some gain, max_stats = candidate_stats\<rparr>
            else best))"

text \<open>The categorical scan keeps the running \<open>cumsum\<close> of levels across features.\<close>

definition scan_cat_feature ::
  "decision_tree \<Rightarrow> tree_accumulator \<Rightarrow> int \<Rightarrow> nat \<Rightarrow> int \<times> best_split
     \<Rightarrow> (int \<times> best_split) result" where
  "scan_cat_feature t st i f state =
     (case state of (cumsum, best) \<Rightarrow>
      bindR (vec_at (cat_levels_cumsum st) (int f)) (\<lambda>limit.
      bindR (foldR (\<lambda>v best.
                 bindR (indexCatStats st (int f) v True) (\<lambda>fv_index.
                 bindR (vec_at (cat_stats st) i) (\<lambda>row.
                 bindR (segment row fv_index (stats_per_split st * 2)) (\<lambda>candidate_stats.
                 consider_split t (stats_per_split st) candidate_stats (int f) v True best))))
               [0..limit - cumsum - 1] best) (\<lambda>best'.
      Inr (max cumsum limit, best'))))"

definition scan_con_feature ::
  "decision_tree \<Rightarrow> tree_accumulator \<Rightarrow> int \<Rightarrow> nat \<Rightarrow> best_split \<Rightarrow> best_split result" where
  "scan_con_feature t st i f best =
     foldR (\<lambda>b best.
         bindR (indexConStats st (int f) b True) (\<lambda>fb_index.
         bindR (vec_at (con_stats st) i) (\<lambda>row.
         bindR (segment row fb_index (stats_per_split st * 2)) (\<lambda>candidate_stats.
         consider_split t (stats_per_split st) candidate_stats (int f) b False best))))
       [0..int (n_bins st) - 1] best"

definition scan_candidates :: "decision_tree \<Rightarrow> tree_accumulator \<Rightarrow> int \<Rightarrow> best_split result" where
  "scan_candidates t st i =
     bindR (foldR (scan_cat_feature t st i) [0..<n_cat_features st] (0, no_split)) (\<lambda>(cumsum, best).
     foldR (scan_con_feature t st i) [0..<n_con_features st] best)"

text \<open>The body of the loop of \<^verbatim>\<open>expand\<close> for the leaf \<open>i\<close> of the last level.\<close>

definition expand_leaf ::
  "tree_accumulator \<Rightarrow> real list list \<Rightarrow> nat \<Rightarrow> nat \<Rightarrow> nat \<Rightarrow> int
     \<Rightarrow> decision_tree \<times> bool \<times> bool \<Rightarrow> (decision_tree \<times> bool \<times> bool) result" where
  "expand_leaf st con_splits min_split min_bucket max_depth i state =
     (case state of (t, children_not_allocated, children_wont_split) \<Rightarrow>
      (let n_non_leaf_nodes = (int (n_leaf_nodes st) - 1) mod 65536;
           sps = stats_per_split st;
           current = n_non_leaf_nodes + i in
       bindR (vec_at (feature_indices t) current) (\<lambda>f.
         if f = IN_PROCESS_LEAF then
           bindR (vec_at (node_stats st) i) (\<lambda>row.
           bindR (set_row (predictions t) current row) (\<lambda>p.
             (let t1 = t\<lparr>predictions := p\<rparr> in
              bindR (scan_candidates t1 st i) (\<lambda>best.
              bindR (case max_impurity_gain best of
                       None \<Rightarrow> Inr False
                     | Some gain \<Rightarrow>
                         if gain > 0
                         then shouldSplit t1 (max_stats best) min_split min_bucket sps max_depth
                         else Inr False) (\<lambda>split.
                if split then
                  bindR (if max_is_cat best then Inr (of_int (max_bin best))
                         else mat_at con_splits (max_feat best) (max_bin best)) (\<lambda>max_threshold.
                  bindR (if children_not_allocated then incrementInPlace t1 else Inr t1) (\<lambda>t2.
                  bindR (segment (max_stats best) 0 sps) (\<lambda>true_stats.
                  bindR (segment (max_stats best) (int sps) sps) (\<lambda>false_stats.
                  bindR (updatePrimarySplit t2 current (max_feat best) max_threshold
                           (max_is_cat best) min_split true_stats false_stats) (\<lambda>(t3, wont).
                  Inr (t3, False, children_wont_split \<and> wont))))))
                else
                  bindR (vec_set (feature_indices t1) current FINISHED_LEAF) (\<lambda>fi.
                  Inr (t1\<lparr>feature_indices := fi\<rparr>, children_not_allocated,
                       children_wont_split)))))))
         else Inr (t, children_not_allocated, children_wont_split))))"

definition expand ::
  "decision_tree \<Rightarrow> tree_accumulator \<Rightarrow> real list list \<Rightarrow> nat \<Rightarrow> nat \<Rightarrow> nat
     \<Rightarrow> (decision_tree \<times> bool) result" where
  "expand t st con_splits min_split min_bucket max_depth =
     bindR (foldR (expand_leaf st con_splits min_split min_bucket max_depth)
              (map int [0..<n_leaf_nodes st]) (t, True, True))
       (\<lambda>(t', children_not_allocated, children_wont_split).
         (let training_finished =
                (children_not_allocated \<or> tree_depth t' \<ge> max_depth + 1 \<or> children_wont_split)
          in Inr (if training_finished
                  then t'\<lparr>feature_indices :=
                         map (\<lambda>f. if f = IN_PROCESS_LEAF then FINISHED_LEAF else f)
                           (feature_indices t')\<rparr>
                  else t',
                  training_finished)))"

section \<open>The surrogate trainer\<close>

text \<open>
  \<^verbatim>\<open>argsort\<close>: the indices of a vector by descending value. \<^verbatim>\<open>std::sort\<close> leaves the
  order of equal values open; the model keeps them in index order. The properties
  proved about the walk below hold for every order of the candidates.
\<close>

definition argsort :: "real list \<Rightarrow> int list" where
  "argsort x = map int (sort_key (\<lambda>i. - x ! i) [0..<length x])"

text \<open>
  One row of \<^verbatim>\<open>cat_stats * cat_agg_matrix\<close>: for every split the forward count (cells 0
  and 2 of its four cells) followed by the reverse count (cells 1 and 3).
\<close>

definition agg_counts :: "nat \<Rightarrow> real list \<Rightarrow> real list result" where
  "agg_counts n_splits row =
     (if length row = n_splits * 4
      then Inr (concat (map (\<lambda>k. [row ! (4 * k) + row ! (4 * k + 2),
                                   row ! (4 * k + 1) + row ! (4 * k + 3)]) [0..<n_splits]))
      else Inl AssertionFailed)"

text \<open>The best threshold, its count and its direction, per feature.\<close>

record surr_best =
  cat_max_thres :: "real list"
  cat_max_count :: "real list"
  cat_max_is_reverse :: "int list"
  con_max_thres :: "real list"
  con_max_count :: "real list"
  con_max_is_reverse :: "int list"

definition cat_best_step ::
  "tree_accumulator \<Rightarrow> real list \<Rightarrow> nat \<Rightarrow> int \<times> real list \<times> real list \<times> int list
     \<Rightarrow> (int \<times> real list \<times> real list \<times> int list) result" where
  "cat_best_step st counts_row each_cat state =
     (case state of (prev_cum_levels, thres, counts, is_rev) \<Rightarrow>
      bindR (vec_at (cat_levels_cumsum st) (int each_cat)) (\<lambda>cum.
        (let n_levels = cum - prev_cum_levels in
         bindR (if n_levels < 0 then Inl OutOfBounds
                else segment counts_row (prev_cum_levels * 2) (nat (n_levels * 2))) (\<lambda>seg.
         bindR (maxIndex seg) (\<lambda>max_label.
         bindR (vec_at counts_row (prev_cum_levels * 2 + int max_label)) (\<lambda>c.
         Inr (cum, thres @ [real (max_label div 2)], counts @ [c],
              is_rev @ [if max_label mod 2 = 1 then 1 else 0])))))))"

definition con_best_step ::
  "tree_accumulator \<Rightarrow> real list list \<Rightarrow> real list \<Rightarrow> nat \<Rightarrow> real list \<times> real list \<times> int list
     \<Rightarrow> (real list \<times> real list \<times> int list) result" where
  "con_best_step st con_splits counts_row each_con state =
     (case state of (thres, counts, is_rev) \<Rightarrow>
      bindR (segment counts_row (int (each_con * n_bins st * 2)) (n_bins st * 2)) (\<lambda>seg.
      bindR (maxIndex seg) (\<lambda>max_label.
      bindR (mat_at con_splits (int each_con) (int (max_label div 2))) (\<lambda>th.
      bindR (vec_at counts_row (int (each_con * n_bins st * 2) + int max_label)) (\<lambda>c.
      Inr (thres @ [th], counts @ [c], is_rev @ [if max_label mod 2 = 1 then 1 else 0]))))))"

definition best_per_feature ::
  "tree_accumulator \<Rightarrow> real list list \<Rightarrow> real list \<Rightarrow> real list \<Rightarrow> surr_best result" where
  "best_per_feature st con_splits cat_counts_row con_counts_row =
     bindR (foldR (cat_best_step st cat_counts_row) [0..<n_cat_features st] (0, [], [], []))
       (\<lambda>(prev, cth, ccn, crv).
     bindR (foldR (con_best_step st con_splits con_counts_row) [0..<n_con_features st] ([], [], []))
       (\<lambda>(nth, ncn, nrv).
     Inr \<lparr>cat_max_thres = cth, cat_max_count = ccn, cat_max_is_reverse = crv,
          con_max_thres = nth, con_max_count = ncn, con_max_is_reverse = nrv\<rparr>))"

text \<open>Writing one surrogate into the slot \<open>to_update_surr\<close>.\<close>

definition store_surrogate ::
  "decision_tree \<Rightarrow> int \<Rightarrow> int \<Rightarrow> real \<Rightarrow> int \<Rightarrow> real \<Rightarrow> decision_tree result" where
  "store_surrogate t to_update_surr index thres status max_count =
     bindR (vec_set (surr_indices t) to_update_surr index) (\<lambda>si.
     bindR (vec_set (surr_thresholds t) to_update_surr thres) (\<lambda>sth.
     bindR (vec_set (surr_status t) to_update_surr status) (\<lambda>ss.
     bindR (cast_int max_count) (\<lambda>agreement.
     bindR (vec_set (surr_agreement t) to_update_surr agreement) (\<lambda>sa.
     Inr (t\<lparr>surr_indices := si, surr_thresholds := sth, surr_status := ss,
            surr_agreement := sa\<rparr>))))))"

text \<open>
  The walk over the first \<open>max_size\<close> entries of the sorted candidate list (step 3 of
  \<^verbatim>\<open>pickSurrogates\<close>); the state is the tree and \<open>surr_count\<close>.
\<close>

fun surr_walk ::
  "nat \<Rightarrow> surr_best \<Rightarrow> int \<Rightarrow> int list \<Rightarrow> decision_tree \<times> int \<Rightarrow> (decision_tree \<times> int) result"
  where
  "surr_walk n_cats b curr_node [] state = Inr state"
| "surr_walk n_cats b curr_node (curr_surr # rest) state =
     (case state of (t, surr_count) \<Rightarrow>
      bindR (vec_at (cat_max_count b @ con_max_count b) curr_surr) (\<lambda>cnt.
      bindR (getMajorityCount t curr_node) (\<lambda>majority.
        if cnt < real majority then Inr (t, surr_count)
        else
          (let to_update_surr = curr_node * int (max_n_surr t) + surr_count in
           bindR (vec_at (is_categorical t) curr_node) (\<lambda>is_cat.
           bindR (vec_at (feature_indices t) curr_node) (\<lambda>primary.
             if curr_surr < int n_cats then
               (if is_cat \<noteq> 1 \<or> primary \<noteq> curr_surr then
                  bindR (vec_at (cat_max_thres b) curr_surr) (\<lambda>thres.
                  bindR (vec_at (cat_max_is_reverse b) curr_surr) (\<lambda>is_rev.
                  bindR (vec_at (cat_max_count b) curr_surr) (\<lambda>c.
                  bindR (store_surrogate t to_update_surr curr_surr thres
                           (if is_rev = 1 then - 1 else 1) c) (\<lambda>t'.
                  surr_walk n_cats b curr_node rest (t', surr_count + 1)))))
                else surr_walk n_cats b curr_node rest (t, surr_count))
             else
               (let con_surr = curr_surr - int n_cats in
                if is_cat \<noteq> 0 \<or> primary \<noteq> con_surr then
                  bindR (vec_at (con_max_thres b) con_surr) (\<lambda>thres.
                  bindR (vec_at (con_max_is_reverse b) con_surr) (\<lambda>is_rev.
                  bindR (vec_at (con_max_count b) con_surr) (\<lambda>c.
                  bindR (store_surrogate t to_update_surr con_surr thres
                           (if is_rev = 1 then - 2 else 2) c) (\<lambda>t'.
                  surr_walk n_cats b curr_node rest (t', surr_count + 1)))))
                else surr_walk n_cats b curr_node rest (t, surr_count))))))))"

text \<open>The body of the loop over the nodes of the last completed layer.\<close>

definition pick_node ::
  "tree_accumulator \<Rightarrow> real list list \<Rightarrow> real list list \<Rightarrow> real list list \<Rightarrow> int \<Rightarrow> int
     \<Rightarrow> decision_tree \<Rightarrow> decision_tree result" where
  "pick_node st con_splits cat_stats_counts con_stats_counts n_ancestors i t =
     (let curr_node = n_ancestors + i in
      if \<not> (0 \<le> curr_node \<and> curr_node < int (length (feature_indices t)))
      then Inl AssertionFailed
      else
        bindR (vec_at (feature_indices t) curr_node) (\<lambda>f.
          if f \<ge> 0 then
            bindR (vec_at cat_stats_counts i) (\<lambda>cat_row.
            bindR (vec_at con_stats_counts i) (\<lambda>con_row.
            bindR (best_per_feature st con_splits cat_row con_row) (\<lambda>b.
              (let all_counts = cat_max_count b @ con_max_count b;
                   sorted_surr_indices = argsort all_counts;
                   max_size = (if length sorted_surr_indices < max_n_surr t
                               then length sorted_surr_indices else max_n_surr t)
               in bindR (surr_walk (n_cat_features st) b curr_node
                           (take max_size sorted_surr_indices) (t, 0)) (\<lambda>(t', surr_count).
                  Inr t')))))
          else Inr t))"

definition pickSurrogates ::
  "decision_tree \<Rightarrow> tree_accumulator \<Rightarrow> real list list \<Rightarrow> decision_tree result" where
  "pickSurrogates t st con_splits =
     (let n_cat_splits = total_n_cat_levels st;
          n_con_splits = n_con_features st * n_bins st in
      bindR (sequenceR (map (agg_counts n_cat_splits) (cat_stats st))) (\<lambda>cat_stats_counts.
      bindR (sequenceR (map (agg_counts n_con_splits) (con_stats st))) (\<lambda>con_stats_counts.
      bindR (if 2 \<le> tree_depth t then cast_uint16 (2 ^ (tree_depth t - 2)) else Inr 0)
        (\<lambda>n_surr_nodes.
        (let n_ancestors = (int n_surr_nodes - 1) mod 65536 in
         foldR (pick_node st con_splits cat_stats_counts con_stats_counts n_ancestors)
           (map int [0..<n_surr_nodes]) t)))))"

section \<open>Predicates used to state the properties\<close>

text \<open>The value the code puts into the last cell of a row's stats vector.\<close>

definition count_cell :: "tree_accumulator \<Rightarrow> real \<Rightarrow> real" where
  "count_cell a weight = (if weights_as_rows a then of_int (trunc weight) else 1)"

text \<open>\<open>c\<close> is the cell-by-cell sum of the matrices \<open>a\<close> and \<open>b\<close>.\<close>

definition entrywise_sum :: "real list list \<Rightarrow> real list list \<Rightarrow> real list list \<Rightarrow> bool" where
  "entrywise_sum c a b \<longleftrightarrow>
     length c = length a \<and>
     (\<forall>i<length a. length (c ! i) = length (a ! i)
        \<and> (\<forall>j<length (a ! i). c ! i ! j = a ! i ! j + b ! i ! j))"

text \<open>The three dimensions the merge compares, and the shapes the sums need.\<close>

definition dims_agree :: "tree_accumulator \<Rightarrow> tree_accumulator \<Rightarrow> bool" where
  "dims_agree a b \<longleftrightarrow>
     n_bins a = n_bins b \<and> n_cat_features a = n_cat_features b
     \<and> n_con_features a = n_con_features b"

definition shapes_agree :: "tree_accumulator \<Rightarrow> tree_accumulator \<Rightarrow> bool" where
  "shapes_agree a b \<longleftrightarrow>
     same_shape (cat_stats a) (cat_stats b) \<and> same_shape (con_stats a) (con_stats b)
     \<and> same_shape (node_stats a) (node_stats b)"

text \<open>All slots of level \<open>l\<close> (the root is level 1) hold \<open>NODE_NON_EXISTING\<close>.\<close>

definition level_non_existing :: "decision_tree \<Rightarrow> nat \<Rightarrow> bool" where
  "level_non_existing t l \<longleftrightarrow>
     list_all (\<lambda>i. feature_indices t ! i = NODE_NON_EXISTING) [2 ^ (l - 1) - 1..<2 ^ l - 1]"

text \<open>Invariant 1 of the data model: the per-node arrays have matching lengths, every
  slot holds a feature index or a sentinel, and the split counts are counts.\<close>

definition arrays_consistent :: "decision_tree \<Rightarrow> bool" where
  "arrays_consistent t \<longleftrightarrow>
     (let n = length (feature_indices t) in
      length (is_categorical t) = n \<and> length (feature_thresholds t) = n
      \<and> length (nonnull_split_count t) = 2 * n
      \<and> length (surr_indices t) = n * max_n_surr t
      \<and> length (surr_thresholds t) = n * max_n_surr t
      \<and> length (surr_status t) = n * max_n_surr t
      \<and> list_all (\<lambda>f. 0 \<le> f \<or> f = IN_PROCESS_LEAF \<or> f = FINISHED_LEAF
                      \<or> f = NODE_NON_EXISTING) (feature_indices t)
      \<and> list_all (\<lambda>x. 0 \<le> x \<and> x < 2 ^ 64) (nonnull_split_count t))"

text \<open>Invariant 2: both children of an internal node are allocated and exist.\<close>

definition children_exist :: "decision_tree \<Rightarrow> bool" where
  "children_exist t \<longleftrightarrow>
     list_all (\<lambda>i. 0 \<le> feature_indices t ! i \<longrightarrow>
           2 * i + 2 < length (feature_indices t)
           \<and> feature_indices t ! (2 * i + 1) \<noteq> NODE_NON_EXISTING
           \<and> feature_indices t ! (2 * i + 2) \<noteq> NODE_NON_EXISTING)
       [0..<length (feature_indices t)]"

text \<open>Invariant 3: below a leaf or a non-existing slot there are only non-existing
  slots (stated for the two children, which gives the whole subtree).\<close>

definition leaves_childless :: "decision_tree \<Rightarrow> bool" where
  "leaves_childless t \<longleftrightarrow>
     list_all (\<lambda>i. feature_indices t ! i < 0 \<longrightarrow>
           (2 * i + 1 < length (feature_indices t)
              \<longrightarrow> feature_indices t ! (2 * i + 1) = NODE_NON_EXISTING)
           \<and> (2 * i + 2 < length (feature_indices t)
              \<longrightarrow> feature_indices t ! (2 * i + 2) = NODE_NON_EXISTING))
       [0..<length (feature_indices t)]"

text \<open>The row has a value for every primary and surrogate feature the tree refers to.\<close>

definition row_fits :: "decision_tree \<Rightarrow> int list \<Rightarrow> real list \<Rightarrow> bool" where
  "row_fits t cat_features con_features \<longleftrightarrow>
     list_all (\<lambda>i. 0 \<le> feature_indices t ! i \<longrightarrow>
           feature_indices t ! i
             < (if is_categorical t ! i \<noteq> 0 then int (length cat_features)
                else int (length con_features)))
       [0..<length (feature_indices t)]
     \<and> list_all (\<lambda>s. 0 \<le> surr_indices t ! s \<longrightarrow>
           surr_indices t ! s
             < (if \<bar>surr_status t ! s\<bar> = 1 then int (length cat_features)
                else int (length con_features)))
       [0..<length (surr_indices t)]"






text \<open>The candidate \<open>c\<close> of the sorted list is the primary split of the node.\<close>

definition candidate_is_primary :: "decision_tree \<Rightarrow> nat \<Rightarrow> int \<Rightarrow> int \<Rightarrow> bool" where
  "candidate_is_primary t n_cats node c \<longleftrightarrow>
     (if c < int n_cats
      then is_categorical t ! nat node = 1 \<and> feature_indices t ! nat node = c
      else is_categorical t ! nat node = 0 \<and> feature_indices t ! nat node = c - int n_cats)"

text \<open>The candidates the walk stores: those met before the first count below the
  majority count, the primary split left out.\<close>

definition stored_candidates ::
  "decision_tree \<Rightarrow> nat \<Rightarrow> surr_best \<Rightarrow> int \<Rightarrow> nat \<Rightarrow> int list \<Rightarrow> int list" where
  "stored_candidates t n_cats b node majority cands =
     filter (\<lambda>c. \<not> candidate_is_primary t n_cats node c)
       (takeWhile (\<lambda>c. real majority \<le> (cat_max_count b @ con_max_count b) ! nat c) cands)"

definition local_index :: "nat \<Rightarrow> int \<Rightarrow> int" where
  "local_index n_cats c = (if c < int n_cats then c else c - int n_cats)"

text \<open>What a finished walk has done, given where it started.\<close>

definition walk_result ::
  "nat \<Rightarrow> surr_best \<Rightarrow> int \<Rightarrow> nat \<Rightarrow> int list \<Rightarrow> decision_tree \<Rightarrow> int \<Rightarrow> decision_tree \<Rightarrow> int
     \<Rightarrow> bool" where
  "walk_result n_cats b node majority cands t k t' k' \<longleftrightarrow>
     (let stored = stored_candidates t n_cats b node majority cands;
          base = node * int (max_n_surr t) + k in
      feature_indices t' = feature_indices t \<and> is_categorical t' = is_categorical t
      \<and> nonnull_split_count t' = nonnull_split_count t \<and> max_n_surr t' = max_n_surr t
      \<and> length (surr_indices t') = length (surr_indices t)
      \<and> length (surr_agreement t') = length (surr_agreement t)
      \<and> k' = k + int (length stored)
      \<and> (\<forall>j<length stored.
            surr_indices t' ! nat (base + int j) = local_index n_cats (stored ! j)
            \<and> int majority \<le> surr_agreement t' ! nat (base + int j))
      \<and> (\<forall>s. s < nat base \<or> nat (base + int (length stored)) \<le> s \<longrightarrow>
            surr_indices t' ! s = surr_indices t ! s
            \<and> surr_agreement t' ! s = surr_agreement t ! s))"

text \<open>The candidates the walk of a node examines.\<close>

definition walk_candidates :: "decision_tree \<Rightarrow> surr_best \<Rightarrow> int list" where
  "walk_candidates t b =
     take (min (length (cat_max_count b @ con_max_count b)) (max_n_surr t))
       (argsort (cat_max_count b @ con_max_count b))"

subsection \<open>Shards and merge plans\<close>

text \<open>
  One accumulator fed a list of rows, one after the other, by the transition
  \<^verbatim>\<open>operator<<(const tuple_type&)\<close>.
\<close>

definition feed :: "null_test \<Rightarrow> tree_accumulator \<Rightarrow> tuple_type list \<Rightarrow> tree_accumulator result"
  where
  "feed isNull a rows = foldR (\<lambda>r a. accumulate isNull a r) rows a"





text \<open>A matrix of zeros, and an accumulator that has counted no row and holds only zeros.\<close>

definition zero_matrix :: "real list list \<Rightarrow> bool" where
  "zero_matrix m = list_all (list_all (\<lambda>x. x = 0)) m"

definition fresh :: "tree_accumulator \<Rightarrow> bool" where
  "fresh z \<longleftrightarrow>
     n_rows z = 0 \<and> zero_matrix (cat_stats z) \<and> zero_matrix (con_stats z)
       \<and> zero_matrix (node_stats z)"

text \<open>Cell-by-cell sum and negation of matrices.\<close>

definition mplus :: "real list list \<Rightarrow> real list list \<Rightarrow> real list list" where
  "mplus a b = map2 (map2 (+)) a b"


text \<open>
  The accumulator \<open>a\<close> with the matrices \<open>C\<close>, \<open>N\<close> and \<open>D\<close> added to its three statistics
  matrices and its row counter set to \<open>k\<close>; the shapes this needs.
\<close>

definition shift_stats ::
  "real list list \<Rightarrow> real list list \<Rightarrow> real list list \<Rightarrow> nat \<Rightarrow> tree_accumulator
     \<Rightarrow> tree_accumulator" where
  "shift_stats C N D k a =
     a\<lparr>n_rows := k, cat_stats := mplus (cat_stats a) C, con_stats := mplus (con_stats a) N,
       node_stats := mplus (node_stats a) D\<rparr>"

definition shiftable ::
  "real list list \<Rightarrow> real list list \<Rightarrow> real list list \<Rightarrow> tree_accumulator \<Rightarrow> bool" where
  "shiftable C N D a \<longleftrightarrow>
     same_shape (cat_stats a) C \<and> same_shape (con_stats a) N \<and> same_shape (node_stats a) D"

text \<open>\<open>b\<close> differs from \<open>a\<close> in the row counter and the three matrices only.\<close>

definition framed :: "tree_accumulator \<Rightarrow> tree_accumulator \<Rightarrow> bool" where
  "framed a b \<longleftrightarrow>
     b = a\<lparr>n_rows := n_rows b, cat_stats := cat_stats b, con_stats := con_stats b,
           node_stats := node_stats b\<rparr>"





section \<open>Concrete inputs used by the examples\<close>

definition example_regression_tree :: decision_tree where
  "example_regression_tree =
     \<lparr>tree_depth = 1, n_y_labels = 4, max_n_surr = 0, is_regression = True,
      impurity_type = GINI, feature_indices = [FINISHED_LEAF], feature_thresholds = [0],
      is_categorical = [0], nonnull_split_count = [0, 0], surr_indices = [],
      surr_thresholds = [], surr_status = [], surr_agreement = [],
      predictions = [[0, 0, 0, 0]]\<rparr>"

definition example_accumulator :: tree_accumulator where
  "example_accumulator =
     \<lparr>n_rows = 0, terminated = False, n_bins = 1, n_cat_features = 1, n_con_features = 1,
      total_n_cat_levels = 1, n_leaf_nodes = 1, stats_per_split = 4, weights_as_rows = True,
      cat_levels_cumsum = [1], cat_stats = [[0, 0, 0, 0, 0, 0, 0, 0]],
      con_stats = [[0, 0, 0, 0, 0, 0, 0, 0]], node_stats = [[0, 0, 0, 0]]\<rparr>"

definition example_terminated_shard :: tree_accumulator where
  "example_terminated_shard =
     example_accumulator\<lparr>n_rows := 1, terminated := True,
        node_stats := [[1, 2, 4, 1]]\<rparr>"

definition example_unsplit_tree :: decision_tree where
  "example_unsplit_tree =
     \<lparr>tree_depth = 3, n_y_labels = 4, max_n_surr = 0, is_regression = True,
      impurity_type = GINI,
      feature_indices = [FINISHED_LEAF, NODE_NON_EXISTING, NODE_NON_EXISTING,
        NODE_NON_EXISTING, NODE_NON_EXISTING, NODE_NON_EXISTING, NODE_NON_EXISTING],
      feature_thresholds = [0, 0, 0, 0, 0, 0, 0],
      is_categorical = [0, 0, 0, 0, 0, 0, 0],
      nonnull_split_count = [0, 0, 0, 0, 0, 0, 0, 0, 0, 0, 0, 0, 0, 0],
      surr_indices = [], surr_thresholds = [], surr_status = [], surr_agreement = [],
      predictions = [[0, 0, 0, 0], [0, 0, 0, 0], [0, 0, 0, 0], [0, 0, 0, 0],
        [0, 0, 0, 0], [0, 0, 0, 0], [0, 0, 0, 0]]\<rparr>"

definition example_split_tree :: decision_tree where
  "example_split_tree =
     example_unsplit_tree\<lparr>feature_indices := [0, FINISHED_LEAF, FINISHED_LEAF,
        NODE_NON_EXISTING, NODE_NON_EXISTING, NODE_NON_EXISTING, NODE_NON_EXISTING]\<rparr>"


definition example_stump :: decision_tree where
  "example_stump =
     \<lparr>tree_depth = 2, n_y_labels = 4, max_n_surr = 0, is_regression = True,
      impurity_type = GINI,
      feature_indices = [0, FINISHED_LEAF, FINISHED_LEAF],
      feature_thresholds = [1, 0, 0], is_categorical = [0, 0, 0],
      nonnull_split_count = [1, 1, 0, 0, 0, 0],
      surr_indices = [], surr_thresholds = [], surr_status = [], surr_agreement = [],
      predictions = [[2, 2, 4, 2], [1, 0, 0, 1], [1, 2, 4, 1]]\<rparr>"

definition example_non_existing_root :: decision_tree where
  "example_non_existing_root =
     \<lparr>tree_depth = 1, n_y_labels = 4, max_n_surr = 0, is_regression = True,
      impurity_type = GINI, feature_indices = [NODE_NON_EXISTING], feature_thresholds = [0],
      is_categorical = [0], nonnull_split_count = [0, 0], surr_indices = [],
      surr_thresholds = [], surr_status = [], surr_agreement = [],
      predictions = [[0, 0, 0, 0]]\<rparr>"

definition example_null_test :: null_test where
  "example_null_test v is_cat = (v < 0)"







definition example_surr_tree :: decision_tree where
  "example_surr_tree =
     \<lparr>tree_depth = 2, n_y_labels = 2, max_n_surr = 1, is_regression = False,
      impurity_type = GINI, feature_indices = [0, FINISHED_LEAF, FINISHED_LEAF],
      feature_thresholds = [0, 0, 0], is_categorical = [1, 0, 0],
      nonnull_split_count = [2, 2, 0, 0, 0, 0],
      surr_indices = [SURR_NON_EXISTING, SURR_NON_EXISTING, SURR_NON_EXISTING],
      surr_thresholds = [0, 0, 0], surr_status = [0, 0, 0], surr_agreement = [0, 0, 0],
      predictions = [[2, 2, 4], [2, 0, 2], [0, 2, 2]]\<rparr>"

text \<open>Surrogate statistics of four rows on which the second categorical feature
  agrees with the primary split on the first.\<close>

definition example_surr_stats :: tree_accumulator where
  "example_surr_stats =
     \<lparr>n_rows = 4, terminated = False, n_bins = 0, n_cat_features = 2, n_con_features = 0,
      total_n_cat_levels = 4, n_leaf_nodes = 1, stats_per_split = 2, weights_as_rows = False,
      cat_levels_cumsum = [2, 4],
      cat_stats = [[0, 0, 0, 0, 0, 0, 0, 0, 2, 0, 2, 0, 2, 2, 0, 0]],
      con_stats = [[]], node_stats = [[0, 0]]\<rparr>"

text \<open>Statistics that also count the primary feature itself.\<close>

definition example_primary_counted_stats :: tree_accumulator where
  "example_primary_counted_stats =
     example_surr_stats\<lparr>cat_stats := [[4, 0, 0, 0, 0, 0, 0, 0, 3, 0, 0, 0, 0, 0, 0, 0]]\<rparr>"



definition example_trained_tree :: decision_tree where
  "example_trained_tree =
     example_surr_tree\<lparr>surr_indices := [1, SURR_NON_EXISTING, SURR_NON_EXISTING],
       surr_thresholds := [0, 0, 0], surr_status := [1, 0, 0], surr_agreement := [4, 0, 0]\<rparr>"




section \<open>Basic facts about the fault monad and the containers\<close>

lemma bindR_simps [simp]: "bindR (Inr v) f = f v" "bindR (Inl e) f = Inl e"
  by (simp_all add: bindR_def)

lemma bindR_eq_Inr: "bindR m f = Inr y \<longleftrightarrow> (\<exists>v. m = Inr v \<and> f v = Inr y)"
  by (cases m) simp_all

section \<open>Regression impurity\<close>

text \<open>
  Claim C5, as amended. For a regression tree and a stats vector \<open>s\<close> of at least three
  cells, \<open>impurity\<close> returns \<open>s[2]/s[0] - (s[1]/s[0])\<^sup>2\<close> whenever \<open>s[0]\<close> is not zero,
  also when it is negative: the function has no guard on the sign of \<open>s[0]\<close>. When
  \<open>s[0] = 0\<close> the divisions by zero leave the finite doubles and no \<open>0\<close> is returned.
\<close>

theorem impurity_regression:
  assumes "is_regression t" and "3 \<le> length s"
  shows "impurity t s =
           (if s ! 0 = 0 then Inl NonFinite else Inr (s ! 2 / s ! 0 - (s ! 1 / s ! 0) ^ 2))"
  using assms by (auto simp add: impurity_def vec_at_def ddiv_def)

theorem impurity_regression_witness:
  "is_regression example_regression_tree \<and> 3 \<le> length [2, 3, 5, 2 :: real]
   \<and> impurity example_regression_tree [2, 3, 5, 2] = Inr (1 / 4)"
  using impurity_regression [of example_regression_tree "[2, 3, 5, 2]"]
  by (simp add: example_regression_tree_def power2_eq_square)

text \<open>
  The claim as stated fails: with total weight \<open>s[0] = -1\<close> the function returns \<open>-4\<close>,
  not \<open>0\<close>.
\<close>

theorem impurity_nonpositive_weight_counterexample:
  "[- 1, 1, 3, 1 :: real] ! 0 \<le> 0
   \<and> impurity example_regression_tree [- 1, 1, 3, 1] = Inr (- 4)
   \<and> impurity example_regression_tree [- 1, 1, 3, 1] \<noteq> Inr 0"
  by (simp add: impurity_def example_regression_tree_def vec_at_def ddiv_def)

section \<open>The unweighted row count of a stats vector\<close>

lemma vec_set_eq_Inr:
  "vec_set xs i v = Inr ys \<longleftrightarrow> 0 \<le> i \<and> i < int (length xs) \<and> ys = xs[nat i := v]"
  by (auto simp: vec_set_def)

lemma row_stats_last:
  assumes "row_stats a is_reg response weight = Inr stats"
  shows "length stats = stats_per_split a \<and> 0 < stats_per_split a
         \<and> stats ! (stats_per_split a - 1) = count_cell a weight"
proof -
  from assms obtain n where n: "(if weights_as_rows a then cast_int weight else Inr 1) = Inr n"
    and rest: "(if is_reg then
         (let w_response = weight * response in
          if stats_per_split a = 4
          then Inr [weight, w_response, w_response * response, of_int n]
          else Inl OutOfBounds)
       else
         bindR (cast_uint16 response) (\<lambda>k.
         bindR (vec_set (replicate (stats_per_split a) 0) (int k) weight) (\<lambda>stats.
         vec_set stats (int (stats_per_split a) - 1) (of_int n)))) = Inr stats"
    unfolding row_stats_def bindR_eq_Inr by blast
  from n have cc: "real_of_int n = count_cell a weight"
    by (auto simp: count_cell_def cast_int_def split: if_splits)
  show ?thesis
  proof (cases is_reg)
    case True
    with rest cc show ?thesis by (auto simp: Let_def split: if_splits)
  next
    case False
    with rest have "bindR (cast_uint16 response) (\<lambda>k.
         bindR (vec_set (replicate (stats_per_split a) 0) (int k) weight) (\<lambda>stats.
         vec_set stats (int (stats_per_split a) - 1) (of_int n))) = Inr stats" by simp
    then obtain k s1 where "vec_set (replicate (stats_per_split a) 0) (int k) weight = Inr s1"
      and "vec_set s1 (int (stats_per_split a) - 1) (of_int n) = Inr stats"
      unfolding bindR_eq_Inr by blast
    then show ?thesis using cc
      by (auto simp: vec_set_eq_Inr nat_diff_distrib')
  qed
qed

lemma add_cells_nth:
  "j < length row \<Longrightarrow>
   add_cells row c vs ! j = (if c \<le> j \<and> j < c + length vs then row ! j + vs ! (j - c) else row ! j)"
  by (simp add: add_cells_def)

lemma length_add_cells [simp]: "length (add_cells row c vs) = length row"
  by (simp add: add_cells_def)

lemma add_row_eq_Inr:
  "add_row m r vs = Inr m' \<longleftrightarrow>
     0 \<le> r \<and> r < int (length m) \<and> length (m ! nat r) = length vs
     \<and> m' = m[nat r := add_cells (m ! nat r) 0 vs]"
  by (auto simp: add_row_def)

lemma add_segment_eq_Inr:
  "add_segment m r c vs = Inr m' \<longleftrightarrow>
     0 \<le> r \<and> r < int (length m) \<and> 0 \<le> c \<and> c + int (length vs) \<le> int (length (m ! nat r))
     \<and> m' = m[nat r := add_cells (m ! nat r) (nat c) vs]"
  by (auto simp: add_segment_def)

lemma add_segment_last_cell:
  assumes "add_segment m r c vs = Inr m'" and "vs \<noteq> []"
  shows "m' ! nat r ! (nat c + length vs - 1) = m ! nat r ! (nat c + length vs - 1) + vs ! (length vs - 1)"
proof -
  from assms(1) have b: "0 \<le> r" "r < int (length m)" "0 \<le> c"
    "c + int (length vs) \<le> int (length (m ! nat r))"
    and m': "m' = m[nat r := add_cells (m ! nat r) (nat c) vs]"
    by (simp_all add: add_segment_eq_Inr)
  from b assms(2) have j: "nat c + length vs - 1 < length (m ! nat r)"
    by (cases vs) auto
  from b have r: "nat r < length m" by auto
  have "nat c + length vs - 1 - nat c = length vs - 1" by simp
  with assms(2) show ?thesis unfolding m' using r j
    by (simp add: add_cells_nth) (cases vs; simp)
qed

text \<open>
  Claim C6, as amended. With \<open>weights_as_rows\<close> the last cell of the stats vector that a
  row adds to \<open>node_stats\<close>, \<open>cat_stats\<close> and \<open>con_stats\<close> is the weight truncated toward
  zero (\<^verbatim>\<open>static_cast<int>(weight)\<close>), not the weight rounded to the nearest integer;
  without \<open>weights_as_rows\<close> it is 1.
\<close>

theorem stats_count_cell:
  "(updateNodeStats a is_reg r response weight = Inr a1 \<longrightarrow>
      node_stats a1 ! nat r ! (stats_per_split a - 1)
        = node_stats a ! nat r ! (stats_per_split a - 1) + count_cell a weight)
   \<and> (updateStats a is_reg True r c response weight = Inr a2 \<longrightarrow>
      cat_stats a2 ! nat r ! (nat c + stats_per_split a - 1)
        = cat_stats a ! nat r ! (nat c + stats_per_split a - 1) + count_cell a weight)
   \<and> (updateStats a is_reg False r c response weight = Inr a3 \<longrightarrow>
      con_stats a3 ! nat r ! (nat c + stats_per_split a - 1)
        = con_stats a ! nat r ! (nat c + stats_per_split a - 1) + count_cell a weight)"
proof (intro conjI impI)
  assume "updateNodeStats a is_reg r response weight = Inr a1"
  then obtain stats m where s: "row_stats a is_reg response weight = Inr stats"
    and m: "add_row (node_stats a) r stats = Inr m" and a1: "a1 = a\<lparr>node_stats := m\<rparr>"
    unfolding updateNodeStats_def by (auto simp: bindR_eq_Inr split: if_splits)
  from row_stats_last [OF s] have l: "length stats = stats_per_split a" "0 < stats_per_split a"
    and c: "stats ! (stats_per_split a - 1) = count_cell a weight" by simp_all
  from m have b: "0 \<le> r" "r < int (length (node_stats a))"
    "length (node_stats a ! nat r) = length stats"
    and m': "m = (node_stats a)[nat r := add_cells (node_stats a ! nat r) 0 stats]"
    by (simp_all add: add_row_eq_Inr)
  from b have "nat r < length (node_stats a)" by auto
  then show "node_stats a1 ! nat r ! (stats_per_split a - 1)
        = node_stats a ! nat r ! (stats_per_split a - 1) + count_cell a weight"
    using l c b(3) by (simp add: a1 m' add_cells_nth)
next
  assume "updateStats a is_reg True r c response weight = Inr a2"
  then obtain stats m where s: "row_stats a is_reg response weight = Inr stats"
    and m: "add_segment (cat_stats a) r c stats = Inr m" and a2: "a2 = a\<lparr>cat_stats := m\<rparr>"
    unfolding updateStats_def by (auto simp: bindR_eq_Inr)
  from row_stats_last [OF s] have l: "length stats = stats_per_split a" "stats \<noteq> []"
    and c: "stats ! (stats_per_split a - 1) = count_cell a weight" by auto
  from add_segment_last_cell [OF m l(2)] l(1) c
  show "cat_stats a2 ! nat r ! (nat c + stats_per_split a - 1)
        = cat_stats a ! nat r ! (nat c + stats_per_split a - 1) + count_cell a weight"
    by (simp add: a2)
next
  assume "updateStats a is_reg False r c response weight = Inr a3"
  then obtain stats m where s: "row_stats a is_reg response weight = Inr stats"
    and m: "add_segment (con_stats a) r c stats = Inr m" and a3: "a3 = a\<lparr>con_stats := m\<rparr>"
    unfolding updateStats_def by (auto simp: bindR_eq_Inr)
  from row_stats_last [OF s] have l: "length stats = stats_per_split a" "stats \<noteq> []"
    and c: "stats ! (stats_per_split a - 1) = count_cell a weight" by auto
  from add_segment_last_cell [OF m l(2)] l(1) c
  show "con_stats a3 ! nat r ! (nat c + stats_per_split a - 1)
        = con_stats a ! nat r ! (nat c + stats_per_split a - 1) + count_cell a weight"
    by (simp add: a3)
qed

lemma trunc_27_10: "trunc (27 / 10) = 2"
  by (simp add: trunc_def)

lemma ex_row_stats: "row_stats example_accumulator True 1 (27 / 10) = Inr [27 / 10, 27 / 10, 27 / 10, 2]"
  by (simp add: row_stats_def example_accumulator_def cast_int_def trunc_def Let_def)

lemma ex_add_cells: "add_cells [0, 0, 0, 0] 0 [a, b, c, d] = [a, b, c, d]"
  by (simp add: add_cells_def upt_rec)

lemma ex_add_cells8: "add_cells [0, 0, 0, 0, 0, 0, 0, 0] 4 [a, b, c, d] = [0, 0, 0, 0, a, b, c, d]"
  by (simp add: add_cells_def upt_rec)

theorem stats_count_cell_witness:
  "updateNodeStats example_accumulator True 0 1 (27 / 10)
       = Inr (example_accumulator\<lparr>node_stats := [[27 / 10, 27 / 10, 27 / 10, 2]]\<rparr>)
   \<and> updateStats example_accumulator True True 0 4 1 (27 / 10)
       = Inr (example_accumulator\<lparr>cat_stats := [[0, 0, 0, 0, 27 / 10, 27 / 10, 27 / 10, 2]]\<rparr>)
   \<and> updateStats example_accumulator True False 0 4 1 (27 / 10)
       = Inr (example_accumulator\<lparr>con_stats := [[0, 0, 0, 0, 27 / 10, 27 / 10, 27 / 10, 2]]\<rparr>)
   \<and> count_cell example_accumulator (27 / 10) = 2"
proof -
  have 1: "updateNodeStats example_accumulator True 0 1 (27 / 10)
       = Inr (example_accumulator\<lparr>node_stats := [[27 / 10, 27 / 10, 27 / 10, 2]]\<rparr>)"
    by (simp add: updateNodeStats_def ex_row_stats add_row_def)
       (simp add: example_accumulator_def ex_add_cells)
  have 2: "updateStats example_accumulator True True 0 4 1 (27 / 10)
       = Inr (example_accumulator\<lparr>cat_stats := [[0, 0, 0, 0, 27 / 10, 27 / 10, 27 / 10, 2]]\<rparr>)"
    by (simp add: updateStats_def ex_row_stats add_segment_def)
       (simp add: example_accumulator_def ex_add_cells8)
  have 3: "updateStats example_accumulator True False 0 4 1 (27 / 10)
       = Inr (example_accumulator\<lparr>con_stats := [[0, 0, 0, 0, 27 / 10, 27 / 10, 27 / 10, 2]]\<rparr>)"
    by (simp add: updateStats_def ex_row_stats add_segment_def)
       (simp add: example_accumulator_def ex_add_cells8)
  from stats_count_cell [of example_accumulator True 0 1 "27 / 10"
      "example_accumulator\<lparr>node_stats := [[27 / 10, 27 / 10, 27 / 10, 2]]\<rparr>" 4
      "example_accumulator\<lparr>cat_stats := [[0, 0, 0, 0, 27 / 10, 27 / 10, 27 / 10, 2]]\<rparr>"
      "example_accumulator\<lparr>con_stats := [[0, 0, 0, 0, 27 / 10, 27 / 10, 27 / 10, 2]]\<rparr>"] 1
  have "count_cell example_accumulator (27 / 10) = 2"
    by (simp add: example_accumulator_def)
  with 1 2 3 show ?thesis by simp
qed

text \<open>
  The claim as stated fails: a row of weight 2.7 adds 2 to the count cell, and 2.7 rounds
  to 3.
\<close>

theorem count_cell_round_counterexample:
  "weights_as_rows example_accumulator
   \<and> updateNodeStats example_accumulator True 0 1 (27 / 10)
       = Inr (example_accumulator\<lparr>node_stats := [[27 / 10, 27 / 10, 27 / 10, 2]]\<rparr>)
   \<and> real_of_int (round (27 / 10 :: real)) = 3"
  by (simp add: updateNodeStats_def ex_row_stats add_row_def ex_add_cells round_def)
     (simp add: example_accumulator_def ex_add_cells)

section \<open>Merging two accumulators\<close>

lemma same_shape_length: "same_shape a b \<Longrightarrow> length a = length b"
  by (simp add: same_shape_def list_all2_lengthD)

lemma same_shape_nth: "same_shape a b \<Longrightarrow> i < length a \<Longrightarrow> length (a ! i) = length (b ! i)"
  unfolding same_shape_def by (drule list_all2_nthD [where p = i]) simp_all

lemma madd_entrywise:
  assumes "madd a b = Inr c"
  shows "entrywise_sum c a b"
proof -
  from assms have sh: "same_shape a b" and c: "c = map2 (map2 (+)) a b"
    by (auto simp: madd_def split: if_splits)
  have l: "length a = length b" by (rule same_shape_length [OF sh])
  have row: "c ! i = map2 (+) (a ! i) (b ! i)" if "i < length a" for i
    using that l by (simp add: c)
  have len: "length (c ! i) = length (a ! i)" if "i < length a" for i
    using same_shape_nth [OF sh that] by (simp add: row [OF that])
  have cell: "c ! i ! j = a ! i ! j + b ! i ! j" if "i < length a" "j < length (a ! i)" for i j
    using same_shape_nth [OF sh that(1)] that(2) by (simp add: row [OF that(1)])
  have "length c = length a" using l by (simp add: c)
  with len cell show ?thesis
    unfolding entrywise_sum_def by simp
qed

lemma madd_same_shape: "same_shape a b \<Longrightarrow> \<exists>c. madd a b = Inr c"
  by (simp add: madd_def)

lemma merge_nonempty_agree:
  assumes "\<not> is_empty b" and "dims_agree a b"
  shows "merge is_empty a b =
           bindR (madd (cat_stats a) (cat_stats b)) (\<lambda>cs.
           bindR (madd (con_stats a) (con_stats b)) (\<lambda>ns.
           bindR (madd (node_stats a) (node_stats b)) (\<lambda>ds.
           Inr (a\<lparr>cat_stats := cs, con_stats := ns, node_stats := ds\<rparr>))))"
  using assms unfolding merge_def dims_agree_def by simp

lemma merge_nonempty_disagree:
  assumes "\<not> is_empty b" and "\<not> dims_agree a b"
  shows "merge is_empty a b = Inr (a\<lparr>terminated := True\<rparr>)"
  using assms unfolding merge_def dims_agree_def by simp

lemma madd_cases: "madd a b = Inl OutOfBounds \<or> (\<exists>c. madd a b = Inr c \<and> same_shape a b)"
  by (simp add: madd_def)

lemma merge_shape_fault:
  assumes "\<not> is_empty b" and "dims_agree a b" and "\<not> shapes_agree a b"
  shows "merge is_empty a b = Inl OutOfBounds"
proof -
  note m = merge_nonempty_agree [of is_empty b a, OF assms(1,2)]
  consider "\<not> same_shape (cat_stats a) (cat_stats b)"
    | "same_shape (cat_stats a) (cat_stats b)" "\<not> same_shape (con_stats a) (con_stats b)"
    | "same_shape (cat_stats a) (cat_stats b)" "same_shape (con_stats a) (con_stats b)"
      "\<not> same_shape (node_stats a) (node_stats b)"
    using assms(3) unfolding shapes_agree_def by blast
  then show ?thesis
  proof cases
    case 1
    then have "madd (cat_stats a) (cat_stats b) = Inl OutOfBounds" by (simp add: madd_def)
    then show ?thesis by (simp add: m)
  next
    case 2
    then have "\<exists>c. madd (cat_stats a) (cat_stats b) = Inr c"
      and "madd (con_stats a) (con_stats b) = Inl OutOfBounds" by (simp_all add: madd_def)
    then show ?thesis by (auto simp: m)
  next
    case 3
    then have "\<exists>c. madd (cat_stats a) (cat_stats b) = Inr c"
      and "\<exists>c. madd (con_stats a) (con_stats b) = Inr c"
      and "madd (node_stats a) (node_stats b) = Inl OutOfBounds" by (simp_all add: madd_def)
    then show ?thesis by (auto simp: m)
  qed
qed

text \<open>
  Claim C8, as amended. Merging \<open>b\<close> into \<open>a\<close> looks at \<open>b.empty()\<close> and at the three
  dimensions only. An empty \<open>b\<close> leaves \<open>a\<close> unchanged; a non-empty \<open>b\<close> whose \<open>n_bins\<close>,
  \<open>n_cat_features\<close> or \<open>n_con_features\<close> differ marks \<open>a\<close> terminated and leaves its matrices
  unchanged; otherwise the three matrices are summed cell by cell and \<open>a\<close> keeps its own
  \<open>terminated\<close> flag (matrices of different shapes cannot be summed). The \<open>terminated\<close>
  flag of neither operand is consulted.
\<close>

theorem merge_cases:
  "(is_empty b \<longrightarrow> merge is_empty a b = Inr a)
   \<and> (\<not> is_empty b \<and> \<not> dims_agree a b \<longrightarrow> merge is_empty a b = Inr (a\<lparr>terminated := True\<rparr>))
   \<and> (\<not> is_empty b \<and> dims_agree a b \<and> shapes_agree a b \<longrightarrow>
        (\<exists>cs ns ds. merge is_empty a b = Inr (a\<lparr>cat_stats := cs, con_stats := ns, node_stats := ds\<rparr>)
           \<and> entrywise_sum cs (cat_stats a) (cat_stats b)
           \<and> entrywise_sum ns (con_stats a) (con_stats b)
           \<and> entrywise_sum ds (node_stats a) (node_stats b)))
   \<and> (\<not> is_empty b \<and> dims_agree a b \<and> \<not> shapes_agree a b \<longrightarrow>
        merge is_empty a b = Inl OutOfBounds)"
proof (intro conjI impI)
  assume "is_empty b" then show "merge is_empty a b = Inr a" by (simp add: merge_def)
next
  assume "\<not> is_empty b \<and> \<not> dims_agree a b"
  then show "merge is_empty a b = Inr (a\<lparr>terminated := True\<rparr>)"
    by (simp add: merge_nonempty_disagree)
next
  assume h: "\<not> is_empty b \<and> dims_agree a b \<and> shapes_agree a b"
  then obtain cs ns ds where cs: "madd (cat_stats a) (cat_stats b) = Inr cs"
    and ns: "madd (con_stats a) (con_stats b) = Inr ns"
    and ds: "madd (node_stats a) (node_stats b) = Inr ds"
    unfolding shapes_agree_def by (auto simp: madd_def)
  from h have "merge is_empty a b = Inr (a\<lparr>cat_stats := cs, con_stats := ns, node_stats := ds\<rparr>)"
    by (simp add: merge_nonempty_agree cs ns ds)
  with madd_entrywise [OF cs] madd_entrywise [OF ns] madd_entrywise [OF ds]
  show "\<exists>cs ns ds. merge is_empty a b = Inr (a\<lparr>cat_stats := cs, con_stats := ns, node_stats := ds\<rparr>)
           \<and> entrywise_sum cs (cat_stats a) (cat_stats b)
           \<and> entrywise_sum ns (con_stats a) (con_stats b)
           \<and> entrywise_sum ds (node_stats a) (node_stats b)"
    by (intro exI [of _ cs] exI [of _ ns] exI [of _ ds] conjI)
next
  assume h: "\<not> is_empty b \<and> dims_agree a b \<and> \<not> shapes_agree a b"
  then show "merge is_empty a b = Inl OutOfBounds"
    by (simp add: merge_shape_fault)
qed

lemma ex_madd4: "madd [[0, 0, 0, 0]] [[a, b, c, d]] = Inr [[a, b, c, d]]"
  by (simp add: madd_def same_shape_def)

lemma ex_madd8: "madd [[0, 0, 0, 0, 0, 0, 0, 0]] [[0, 0, 0, 0, 0, 0, 0, 0]] = Inr [[0, 0, 0, 0, 0, 0, 0, 0]]"
  by (simp add: madd_def same_shape_def)

lemma ex_merge_terminated:
  "merge (\<lambda>x. n_rows x = 0) example_accumulator example_terminated_shard
     = Inr (example_accumulator\<lparr>node_stats := [[1, 2, 4, 1]]\<rparr>)"
  by (simp add: merge_def example_terminated_shard_def)
     (simp add: example_accumulator_def ex_madd4 ex_madd8)

theorem merge_cases_witness:
  "merge (\<lambda>x. n_rows x = 0) example_terminated_shard example_accumulator = Inr example_terminated_shard
   \<and> merge (\<lambda>x. n_rows x = 0) example_accumulator (example_terminated_shard\<lparr>n_bins := 2\<rparr>)
       = Inr (example_accumulator\<lparr>terminated := True\<rparr>)
   \<and> (\<exists>cs ns ds. merge (\<lambda>x. n_rows x = 0) example_accumulator example_terminated_shard
          = Inr (example_accumulator\<lparr>cat_stats := cs, con_stats := ns, node_stats := ds\<rparr>)
        \<and> entrywise_sum ds (node_stats example_accumulator) (node_stats example_terminated_shard))
   \<and> merge (\<lambda>x. n_rows x = 0) example_accumulator (example_terminated_shard\<lparr>node_stats := []\<rparr>)
       = Inl OutOfBounds"
proof -
  have e: "n_rows example_accumulator = 0" "n_rows example_terminated_shard \<noteq> 0"
    by (simp_all add: example_accumulator_def example_terminated_shard_def)
  have d: "dims_agree example_accumulator example_terminated_shard"
    "\<not> dims_agree example_accumulator (example_terminated_shard\<lparr>n_bins := 2\<rparr>)"
    by (simp_all add: dims_agree_def example_accumulator_def example_terminated_shard_def)
  have s: "shapes_agree example_accumulator example_terminated_shard"
    "\<not> shapes_agree example_accumulator (example_terminated_shard\<lparr>node_stats := []\<rparr>)"
    by (simp_all add: shapes_agree_def same_shape_def example_accumulator_def example_terminated_shard_def)
  have d': "dims_agree example_accumulator (example_terminated_shard\<lparr>node_stats := []\<rparr>)"
    by (simp add: dims_agree_def example_accumulator_def example_terminated_shard_def)
  from merge_cases [of "\<lambda>x. n_rows x = 0" example_accumulator example_terminated_shard] e
  have 1: "merge (\<lambda>x. n_rows x = 0) example_terminated_shard example_accumulator = Inr example_terminated_shard"
    by simp
  from merge_cases [of "\<lambda>x. n_rows x = 0" "example_terminated_shard\<lparr>n_bins := 2\<rparr>" example_accumulator] e d
  have 2: "merge (\<lambda>x. n_rows x = 0) example_accumulator (example_terminated_shard\<lparr>n_bins := 2\<rparr>)
       = Inr (example_accumulator\<lparr>terminated := True\<rparr>)"
    by simp
  from merge_cases [of "\<lambda>x. n_rows x = 0" example_terminated_shard example_accumulator] e d s
  have 3: "\<exists>cs ns ds. merge (\<lambda>x. n_rows x = 0) example_accumulator example_terminated_shard
          = Inr (example_accumulator\<lparr>cat_stats := cs, con_stats := ns, node_stats := ds\<rparr>)
        \<and> entrywise_sum ds (node_stats example_accumulator) (node_stats example_terminated_shard)"
    by auto
  from merge_cases [of "\<lambda>x. n_rows x = 0" "example_terminated_shard\<lparr>node_stats := []\<rparr>" example_accumulator] e d' s
  have 4: "merge (\<lambda>x. n_rows x = 0) example_accumulator (example_terminated_shard\<lparr>node_stats := []\<rparr>)
       = Inl OutOfBounds"
    by simp
  from 1 2 3 4 show ?thesis by blast
qed

text \<open>
  The claim as stated fails: a shard already in the error state is merged like any other,
  and the result is not marked terminated.
\<close>

theorem merge_ignores_error_state_counterexample:
  "terminated example_terminated_shard
   \<and> merge (\<lambda>x. n_rows x = 0) example_accumulator example_terminated_shard
       = Inr (example_accumulator\<lparr>node_stats := [[1, 2, 4, 1]]\<rparr>)
   \<and> \<not> terminated (example_accumulator\<lparr>node_stats := [[1, 2, 4, 1]]\<rparr>)"
  by (simp add: ex_merge_terminated)
     (simp add: example_terminated_shard_def example_accumulator_def)

section \<open>Depth recomputation\<close>

lemma level_non_existing_iff:
  "level_non_existing t l \<longleftrightarrow>
     (\<forall>i. 2 ^ (l - 1) - 1 \<le> i \<and> i < 2 ^ l - 1 \<longrightarrow> feature_indices t ! i = NODE_NON_EXISTING)"
  by (auto simp: level_non_existing_def list_all_iff)

lemma level_all_non_existing_eq:
  assumes "\<forall>j\<in>set js. 0 \<le> start + j \<and> start + j < int (length fi)"
  shows "level_all_non_existing fi start js
           = Inr (\<forall>j\<in>set js. fi ! nat (start + j) = NODE_NON_EXISTING)"
  using assms by (induction js) (auto simp: vec_at_def)

lemma trunc_of_nat [simp]: "trunc (real n) = int n"
  by (simp add: trunc_def)

lemma cast_uint16_pow2:
  assumes "m < 16"
  shows "cast_uint16 (2 ^ m) = Inr (2 ^ m)"
proof -
  have "(2::real) ^ m = real (2 ^ m)" by simp
  moreover have "(2::real) ^ m < 2 ^ 16" using assms by (intro power_strict_increasing) simp_all
  moreover have "- 1 < (2::real) ^ m" by (rule less_le_trans [of _ 0]) simp_all
  ultimately show ?thesis
    unfolding cast_uint16_def by (simp only: trunc_of_nat nat_int if_True simp_thms)
qed

lemma pow2_level_bound:
  assumes "1 \<le> l" and "l \<le> d"
  shows "(2::nat) ^ l - 1 \<le> 2 ^ d - 1"
  using assms by (simp add: diff_le_mono)

lemma scan_level:
  assumes len: "length (feature_indices t) = 2 ^ d - 1" and l: "2 \<le> l" "l \<le> d"
  shows "level_all_non_existing (feature_indices t) (int (2 ^ (l - 1)) - 1)
            (map int [0..<2 ^ (l - 1)]) = Inr (level_non_existing t l)"
proof -
  let ?n = "(2::nat) ^ (l - 1)"
  have two: "(2::nat) ^ l = ?n + ?n" using l by (cases l) simp_all
  have le: "(2::nat) ^ l - 1 \<le> 2 ^ d - 1" using l by (intro pow2_level_bound) simp_all
  have pos: "1 \<le> ?n" by simp
  have bounds: "\<forall>j\<in>set (map int [0..<?n]). 0 \<le> int ?n - 1 + j
        \<and> int ?n - 1 + j < int (length (feature_indices t))"
  proof
    fix j assume "j \<in> set (map int [0..<?n])"
    then obtain k where k: "j = int k" "k < ?n" by auto
    have "?n - 1 + k < 2 ^ l - 1" using k(2) pos unfolding two by linarith
    with le have "?n - 1 + k < 2 ^ d - 1" by simp
    then show "0 \<le> int ?n - 1 + j \<and> int ?n - 1 + j < int (length (feature_indices t))"
      using pos unfolding len k(1) by linarith
  qed
  have "(\<forall>j\<in>set (map int [0..<?n]). feature_indices t ! nat (int ?n - 1 + j) = NODE_NON_EXISTING)
        \<longleftrightarrow> level_non_existing t l"
  proof
    assume a: "\<forall>j\<in>set (map int [0..<?n]). feature_indices t ! nat (int ?n - 1 + j) = NODE_NON_EXISTING"
    show "level_non_existing t l"
      unfolding level_non_existing_iff
    proof (intro allI impI)
      fix i assume i: "?n - 1 \<le> i \<and> i < 2 ^ l - 1"
      then have "i - (?n - 1) < ?n" using two by linarith
      then have "int (i - (?n - 1)) \<in> set (map int [0..<?n])" by simp
      with a have "feature_indices t ! nat (int ?n - 1 + int (i - (?n - 1))) = NODE_NON_EXISTING"
        by blast
      moreover have "nat (int ?n - 1 + int (i - (?n - 1))) = i" using i pos by linarith
      ultimately show "feature_indices t ! i = NODE_NON_EXISTING" by simp
    qed
  next
    assume a: "level_non_existing t l"
    show "\<forall>j\<in>set (map int [0..<?n]). feature_indices t ! nat (int ?n - 1 + j) = NODE_NON_EXISTING"
    proof
      fix j assume "j \<in> set (map int [0..<?n])"
      then obtain k where k: "j = int k" "k < ?n" by auto
      have eq: "nat (int ?n - 1 + j) = ?n - 1 + k" using pos unfolding k(1) by linarith
      have "?n - 1 \<le> ?n - 1 + k \<and> ?n - 1 + k < 2 ^ l - 1" using k(2) pos unfolding two by linarith
      with a show "feature_indices t ! nat (int ?n - 1 + j) = NODE_NON_EXISTING"
        unfolding level_non_existing_iff eq by blast
    qed
  qed
  with level_all_non_existing_eq [OF bounds] show ?thesis by simp
qed

lemma recompute_loop_Cons:
  assumes len: "length (feature_indices t) = 2 ^ d - 1" and d: "d \<le> 16"
    and k: "2 \<le> k" "k \<le> d"
  shows "recompute_loop t (k # rest)
           = (if level_non_existing t k then Inr (k - 1) else recompute_loop t rest)"
proof -
  have c: "cast_uint16 (2 ^ (k - 1)) = Inr (2 ^ (k - 1))"
    using k d by (intro cast_uint16_pow2) simp
  show ?thesis
    unfolding recompute_loop.simps c bindR_simps of_nat_power of_nat_numeral
      scan_level [OF len k, unfolded of_nat_power of_nat_numeral]
    by simp
qed

lemma recompute_loop_first:
  assumes len: "length (feature_indices t) = 2 ^ d - 1" and d: "d \<le> 16"
    and e: "e \<le> d"
    and k: "2 \<le> k"
    and ne: "level_non_existing t (k + n)" "k + n \<le> e"
    and ex: "\<forall>l. k \<le> l \<and> l < k + n \<longrightarrow> \<not> level_non_existing t l"
  shows "recompute_loop t [k..<Suc e] = Inr (k + n - 1)"
  using k ne ex
proof (induction n arbitrary: k)
  case 0
  then have u: "[k..<Suc e] = k # [Suc k..<Suc e]" by (simp add: upt_rec)
  have kd: "k \<le> d" using 0 e by simp
  show ?case
    unfolding u recompute_loop_Cons [OF len d "0.prems"(1) kd] using "0.prems"(2) by simp
next
  case (Suc n)
  then have u: "[k..<Suc e] = k # [Suc k..<Suc e]" by (simp add: upt_rec)
  have kd: "k \<le> d" using Suc.prems e by simp
  have nk: "\<not> level_non_existing t k" using Suc.prems(4) by simp
  have "recompute_loop t [Suc k..<Suc e] = Inr (Suc k + n - 1)"
    using Suc.prems by (intro Suc.IH) auto
  then show ?case
    unfolding u recompute_loop_Cons [OF len d Suc.prems(1) kd] using nk by simp
qed

lemma recompute_loop_none:
  assumes len: "length (feature_indices t) = 2 ^ d - 1" and d: "d \<le> 16"
    and e: "e \<le> d"
    and k: "2 \<le> k"
    and ex: "\<forall>l. k \<le> l \<and> l \<le> e \<longrightarrow> \<not> level_non_existing t l"
    and kn: "k + n = Suc e"
  shows "recompute_loop t [k..<Suc e] = Inr (tree_depth t)"
  using k ex kn
proof (induction n arbitrary: k)
  case 0
  then show ?case by simp
next
  case (Suc n)
  then have u: "[k..<Suc e] = k # [Suc k..<Suc e]" by (simp add: upt_rec)
  have kd: "k \<le> d" using Suc.prems e by simp
  have nk: "\<not> level_non_existing t k" using Suc.prems by simp
  have "recompute_loop t [Suc k..<Suc e] = Inr (tree_depth t)"
    using Suc.prems by (intro Suc.IH) auto
  then show ?case
    unfolding u recompute_loop_Cons [OF len d Suc.prems(1) kd] using nk by simp
qed

text \<open>
  Claim C9, as amended. For a tree of depth 2 to 16 whose arrays have \<open>2^depth - 1\<close> slots,
  \<open>recomputeTreeDepth\<close> scans the levels from 2 downwards and returns \<open>k - 1\<close> for the
  shallowest level \<open>k\<close> whose slots are all \<open>NODE_NON_EXISTING\<close>; it returns \<open>tree_depth\<close>
  when no level is. So it returns \<open>tree_depth - 1\<close> when the deepest level is the only
  level without a node, and less when a shallower level is empty as well.
\<close>

theorem recomputeTreeDepth_result:
  assumes "length (feature_indices t) = 2 ^ tree_depth t - 1"
    and "2 \<le> tree_depth t" and "tree_depth t \<le> 16"
  shows "(\<forall>k. 2 \<le> k \<and> k \<le> tree_depth t \<and> level_non_existing t k
              \<and> (\<forall>l. 2 \<le> l \<and> l < k \<longrightarrow> \<not> level_non_existing t l)
            \<longrightarrow> recomputeTreeDepth t = Inr (k - 1))
         \<and> ((\<forall>l. 2 \<le> l \<and> l \<le> tree_depth t \<longrightarrow> \<not> level_non_existing t l)
            \<longrightarrow> recomputeTreeDepth t = Inr (tree_depth t))"
proof (intro conjI allI impI)
  have big: "\<not> length (feature_indices t) \<le> 1"
  proof -
    have "(2::nat) ^ 2 \<le> 2 ^ tree_depth t" using assms(2) by (intro power_increasing) simp_all
    then show ?thesis unfolding assms(1) by simp
  qed
  then have unf: "recomputeTreeDepth t = recompute_loop t [2..<Suc (tree_depth t)]"
    using assms(2) by (simp add: recomputeTreeDepth_def)
  {
    fix k
    assume h: "2 \<le> k \<and> k \<le> tree_depth t \<and> level_non_existing t k
              \<and> (\<forall>l. 2 \<le> l \<and> l < k \<longrightarrow> \<not> level_non_existing t l)"
    then obtain n where n: "k = 2 + n" using le_Suc_ex by blast
    have "recompute_loop t [2..<Suc (tree_depth t)] = Inr (2 + n - 1)"
      using h assms(2) unfolding n
      by (intro recompute_loop_first [OF assms(1) assms(3)]) auto
    then show "recomputeTreeDepth t = Inr (k - 1)" unfolding unf n .
  }
  {
    assume h: "\<forall>l. 2 \<le> l \<and> l \<le> tree_depth t \<longrightarrow> \<not> level_non_existing t l"
    obtain n where n: "Suc (tree_depth t) = 2 + n" using assms(2) le_Suc_ex [of 2 "Suc (tree_depth t)"] by auto
    have "recompute_loop t [2..<Suc (tree_depth t)] = Inr (tree_depth t)"
      using h n by (intro recompute_loop_none [OF assms(1) assms(3), where n = n]) auto
    then show "recomputeTreeDepth t = Inr (tree_depth t)" unfolding unf .
  }
qed


lemma ex_levels:
  "level_non_existing example_unsplit_tree 2" "level_non_existing example_unsplit_tree 3"
  "\<not> level_non_existing example_split_tree 2" "level_non_existing example_split_tree 3"
  "\<not> level_non_existing example_stump 2"
  by code_simp+

theorem recomputeTreeDepth_result_witness:
  "length (feature_indices example_split_tree) = 2 ^ tree_depth example_split_tree - 1
   \<and> tree_depth example_split_tree = 3
   \<and> level_non_existing example_split_tree 3 \<and> \<not> level_non_existing example_split_tree 2
   \<and> recomputeTreeDepth example_split_tree = Inr 2
   \<and> length (feature_indices example_stump) = 2 ^ tree_depth example_stump - 1
   \<and> tree_depth example_stump = 2 \<and> \<not> level_non_existing example_stump 2
   \<and> recomputeTreeDepth example_stump = Inr 2"
proof -
  have a: "length (feature_indices example_split_tree) = 2 ^ tree_depth example_split_tree - 1"
    "tree_depth example_split_tree = 3"
    by (simp_all add: example_split_tree_def example_unsplit_tree_def)
  have b: "length (feature_indices example_stump) = 2 ^ tree_depth example_stump - 1"
    "tree_depth example_stump = 2"
    by (simp_all add: example_stump_def)
  have l2: "\<not> level_non_existing example_split_tree l" if "2 \<le> l \<and> l < 3" for l
  proof -
    from that have "l = 2" by simp
    then show ?thesis using ex_levels(3) by simp
  qed
  have l2': "\<not> level_non_existing example_stump l"
    if "2 \<le> l \<and> l \<le> tree_depth example_stump" for l
  proof -
    from that have "l = 2" by (simp add: b(2))
    then show ?thesis using ex_levels(5) by simp
  qed
  have ra: "2 \<le> tree_depth example_split_tree" "tree_depth example_split_tree \<le> 16"
    and rb: "2 \<le> tree_depth example_stump" "tree_depth example_stump \<le> 16"
    by (simp_all add: a b)
  have "2 \<le> (3::nat) \<and> 3 \<le> tree_depth example_split_tree
        \<and> level_non_existing example_split_tree 3
        \<and> (\<forall>l. 2 \<le> l \<and> l < 3 \<longrightarrow> \<not> level_non_existing example_split_tree l)"
    using a(2) ex_levels(4) l2 by simp
  with recomputeTreeDepth_result [OF a(1) ra, THEN conjunct1, rule_format, of 3]
  have 1: "recomputeTreeDepth example_split_tree = Inr 2" by simp
  have "\<forall>l. 2 \<le> l \<and> l \<le> tree_depth example_stump \<longrightarrow> \<not> level_non_existing example_stump l"
    using l2' by simp
  with recomputeTreeDepth_result [OF b(1) rb, THEN conjunct2]
  have 2: "recomputeTreeDepth example_stump = Inr 2" by (simp add: b(2))
  from 1 2 show ?thesis using a b ex_levels by simp
qed

text \<open>
  The claim as stated fails: in a three-level tree whose root never split, the deepest
  level is empty and the result is 1, not \<open>tree_depth - 1 = 2\<close>.
\<close>

lemma ex_unsplit_depth: "recomputeTreeDepth example_unsplit_tree = Inr 1"
  by code_simp

theorem recomputeTreeDepth_empty_levels_counterexample:
  "level_non_existing example_unsplit_tree (tree_depth example_unsplit_tree)
   \<and> recomputeTreeDepth example_unsplit_tree = Inr 1
   \<and> tree_depth example_unsplit_tree - 1 = 2"
proof -
  have d: "tree_depth example_unsplit_tree = 3" by (simp add: example_unsplit_tree_def)
  with ex_unsplit_depth ex_levels(2) show ?thesis by simp
qed

section \<open>The inference walk reaches a leaf\<close>

lemma vec_at_in_range:
  "0 \<le> i \<Longrightarrow> i < int (length xs) \<Longrightarrow> vec_at xs i = Inr (xs ! nat i)"
  by (simp add: vec_at_def)

lemma vec_at_eq_Inr: "vec_at xs i = Inr v \<longleftrightarrow> 0 \<le> i \<and> i < int (length xs) \<and> v = xs ! nat i"
  by (auto simp: vec_at_def)

lemma cast_uint64_count:
  assumes "0 \<le> x" and "x < 2 ^ 64"
  shows "\<exists>c. cast_uint64 x = Inr c"
  using assms by (simp add: cast_uint64_def)

lemma getMajoritySplit_total:
  assumes ac: "arrays_consistent t"
    and i: "0 \<le> i" "i < int (length (feature_indices t))"
    and f: "0 \<le> feature_indices t ! nat i"
  shows "\<exists>b. getMajoritySplit t i = Inr b"
proof -
  let ?c = "nonnull_split_count t"
  from ac have len: "length ?c = 2 * length (feature_indices t)"
    and cnt: "list_all (\<lambda>x. 0 \<le> x \<and> x < 2 ^ 64) ?c"
    by (simp_all add: arrays_consistent_def Let_def)
  have r1: "0 \<le> i * 2" "i * 2 < int (length ?c)" and r2: "0 \<le> i * 2 + 1" "i * 2 + 1 < int (length ?c)"
    using i len by simp_all
  have a1: "vec_at ?c (i * 2) = Inr (?c ! nat (i * 2))"
    and a2: "vec_at ?c (i * 2 + 1) = Inr (?c ! nat (i * 2 + 1))"
    using r1 r2 by (simp_all add: vec_at_in_range)
  have "nat (i * 2) < length ?c" "nat (i * 2 + 1) < length ?c" using r1 r2 by linarith+
  with cnt have "0 \<le> ?c ! nat (i * 2) \<and> ?c ! nat (i * 2) < 2 ^ 64"
    and "0 \<le> ?c ! nat (i * 2 + 1) \<and> ?c ! nat (i * 2 + 1) < 2 ^ 64"
    by (simp_all add: list_all_length)
  then obtain c1 c2 where c: "cast_uint64 (?c ! nat (i * 2)) = Inr c1"
    "cast_uint64 (?c ! nat (i * 2 + 1)) = Inr c2"
    using cast_uint64_count by blast
  show ?thesis
    unfolding getMajoritySplit_def using f
    by (simp add: vec_at_in_range [OF i] a1 a2 c)
qed

lemma getSurrSplit_loop_total:
  assumes ac: "arrays_consistent t" and rf: "row_fits t cat con"
    and i: "0 \<le> i" "i < int (length (feature_indices t))"
    and f: "0 \<le> feature_indices t ! nat i"
    and s: "\<forall>s\<in>set slots. 0 \<le> s \<and> s < int (length (surr_indices t))"
  shows "\<exists>b. getSurrSplit_loop isNull t i cat con slots = Inr b"
  using s
proof (induction slots)
  case Nil
  then show ?case using getMajoritySplit_total [OF ac i f] by simp
next
  case (Cons s slots)
  then have sr: "0 \<le> s" "s < int (length (surr_indices t))" by simp_all
  from ac have l: "length (surr_thresholds t) = length (surr_indices t)"
    "length (surr_status t) = length (surr_indices t)"
    by (simp_all add: arrays_consistent_def Let_def)
  have rd: "vec_at (surr_indices t) s = Inr (surr_indices t ! nat s)"
    "vec_at (surr_thresholds t) s = Inr (surr_thresholds t ! nat s)"
    "vec_at (surr_status t) s = Inr (surr_status t ! nat s)"
    using sr l by (simp_all add: vec_at_in_range)
  from Cons obtain b where ih: "getSurrSplit_loop isNull t i cat con slots = Inr b" by auto
  obtain m where m: "getMajoritySplit t i = Inr m" using getMajoritySplit_total [OF ac i f] by blast
  show ?case
  proof (cases "surr_indices t ! nat s < 0")
    case True
    then show ?thesis by (simp add: rd m)
  next
    case False
    have "nat s < length (surr_indices t)" using sr by linarith
    with rf False have fit: "surr_indices t ! nat s
             < (if \<bar>surr_status t ! nat s\<bar> = 1 then int (length cat) else int (length con))"
      by (simp add: row_fits_def list_all_length)
    show ?thesis
    proof (cases "\<bar>surr_status t ! nat s\<bar> = 1")
      case True
      with fit False have "vec_at cat (surr_indices t ! nat s) = Inr (cat ! nat (surr_indices t ! nat s))"
        by (simp add: vec_at_in_range)
      with True False show ?thesis by (simp add: rd ih Let_def)
    next
      case F: False
      with fit False have "vec_at con (surr_indices t ! nat s) = Inr (con ! nat (surr_indices t ! nat s))"
        by (simp add: vec_at_in_range)
      with F False show ?thesis by (simp add: rd ih Let_def)
    qed
  qed
qed

lemma getSurrSplit_total:
  assumes ac: "arrays_consistent t" and rf: "row_fits t cat con"
    and i: "0 \<le> i" "i < int (length (feature_indices t))"
    and f: "0 \<le> feature_indices t ! nat i"
  shows "\<exists>b. getSurrSplit isNull t i cat con = Inr b"
proof -
  from ac have l: "int (length (surr_indices t)) = int (length (feature_indices t)) * int (max_n_surr t)"
    by (simp add: arrays_consistent_def Let_def)
  have "0 \<le> s \<and> s < int (length (surr_indices t))"
    if "s \<in> set [i * int (max_n_surr t)..(i + 1) * int (max_n_surr t) - 1]" for s
  proof -
    from that have lo: "i * int (max_n_surr t) \<le> s" and hi: "s < (i + 1) * int (max_n_surr t)" by simp_all
    have "0 \<le> i * int (max_n_surr t)" using i by simp
    moreover have "(i + 1) * int (max_n_surr t) \<le> int (length (feature_indices t)) * int (max_n_surr t)"
      using i by (intro mult_right_mono) simp_all
    ultimately show ?thesis using lo hi unfolding l by linarith
  qed
  then show ?thesis
    unfolding getSurrSplit_def
    by (intro getSurrSplit_loop_total [OF ac rf i f]) blast
qed

lemma search_branch_total:
  assumes ac: "arrays_consistent t" and rf: "row_fits t cat con"
    and i: "0 \<le> i" "i < int (length (feature_indices t))"
    and f: "0 \<le> feature_indices t ! nat i"
  shows "\<exists>b. search_branch isNull t cat con i (feature_indices t ! nat i) = Inr b"
proof -
  from ac have l: "length (is_categorical t) = length (feature_indices t)"
    "length (feature_thresholds t) = length (feature_indices t)"
    by (simp_all add: arrays_consistent_def Let_def)
  have rd: "vec_at (is_categorical t) i = Inr (is_categorical t ! nat i)"
    "vec_at (feature_thresholds t) i = Inr (feature_thresholds t ! nat i)"
    using i l by (simp_all add: vec_at_in_range)
  obtain g where g: "getSurrSplit isNull t i cat con = Inr g"
    using getSurrSplit_total [OF ac rf i f] by blast
  have "nat i < length (feature_indices t)" using i by linarith
  with rf f have fit: "feature_indices t ! nat i
             < (if is_categorical t ! nat i \<noteq> 0 then int (length cat) else int (length con))"
    by (simp add: row_fits_def list_all_length)
  show ?thesis
  proof (cases "is_categorical t ! nat i \<noteq> 0")
    case True
    with fit f have "vec_at cat (feature_indices t ! nat i) = Inr (cat ! nat (feature_indices t ! nat i))"
      by (simp add: vec_at_in_range)
    with True show ?thesis by (simp add: search_branch_def rd g)
  next
    case False
    with fit f have "vec_at con (feature_indices t ! nat i) = Inr (con ! nat (feature_indices t ! nat i))"
      by (simp add: vec_at_in_range)
    with False show ?thesis by (simp add: search_branch_def rd g)
  qed
qed

lemma search_loop_reaches_leaf:
  shows "arrays_consistent t \<Longrightarrow> children_exist t \<Longrightarrow> row_fits t cat con
         \<Longrightarrow> 0 \<le> current \<Longrightarrow> current < int (length (feature_indices t))
         \<Longrightarrow> feature_indices t ! nat current \<noteq> NODE_NON_EXISTING
         \<Longrightarrow> \<exists>leaf. search_loop isNull t cat con current = Inr leaf
               \<and> 0 \<le> leaf \<and> leaf < int (length (feature_indices t))
               \<and> (feature_indices t ! nat leaf = IN_PROCESS_LEAF
                  \<or> feature_indices t ! nat leaf = FINISHED_LEAF)"
proof (induction isNull t cat con current rule: search_loop.induct)
  case (1 isNull t cat con current)
  note ac = "1.prems"(1) and ce = "1.prems"(2) and rf = "1.prems"(3)
  let ?f = "feature_indices t ! nat current"
  have i: "0 \<le> current" "current < int (length (feature_indices t))" using "1.prems" by simp_all
  have rd: "vec_at (feature_indices t) current = Inr ?f" using i by (simp add: vec_at_in_range)
  have ni: "nat current < length (feature_indices t)" using i by linarith
  show ?case
  proof (cases "?f \<noteq> IN_PROCESS_LEAF \<and> ?f \<noteq> FINISHED_LEAF")
    case False
    then show ?thesis using i
      by (subst search_loop.simps) (auto simp: rd)
  next
    case True
    have nne: "?f \<noteq> NODE_NON_EXISTING" using "1.prems" by simp
    from ac ni have "0 \<le> ?f \<or> ?f = IN_PROCESS_LEAF \<or> ?f = FINISHED_LEAF \<or> ?f = NODE_NON_EXISTING"
      by (simp add: arrays_consistent_def Let_def list_all_length)
    with True nne have f: "0 \<le> ?f" by blast
    obtain b where b: "search_branch isNull t cat con current ?f = Inr b"
      using search_branch_total [OF ac rf i f] by blast
    let ?next = "if b then trueChild current else falseChild current"
    from ce ni f have ch: "2 * nat current + 2 < length (feature_indices t)"
      "feature_indices t ! (2 * nat current + 1) \<noteq> NODE_NON_EXISTING"
      "feature_indices t ! (2 * nat current + 2) \<noteq> NODE_NON_EXISTING"
      by (simp_all add: children_exist_def list_all_length)
    have n1: "nat (trueChild current) = 2 * nat current + 1"
      and n2: "nat (falseChild current) = 2 * nat current + 2"
      using i by (simp_all add: trueChild_def falseChild_def nat_add_distrib nat_mult_distrib)
    have nx: "0 \<le> ?next" "?next < int (length (feature_indices t))"
      "feature_indices t ! nat ?next \<noteq> NODE_NON_EXISTING"
      using i ch n1 n2 by (auto simp: trueChild_def falseChild_def)
    have "\<exists>leaf. search_loop isNull t cat con ?next = Inr leaf
               \<and> 0 \<le> leaf \<and> leaf < int (length (feature_indices t))
               \<and> (feature_indices t ! nat leaf = IN_PROCESS_LEAF
                  \<or> feature_indices t ! nat leaf = FINISHED_LEAF)"
      using "1.IH" [OF rd True nne b ac ce rf nx] .
    then show ?thesis using True nne
      by (subst search_loop.simps) (simp add: rd b)
  qed
qed

text \<open>
  Claim C3, as amended. Take a tree whose arrays have matching lengths and hold feature
  indices or sentinels, whose root slot is not \<open>NODE_NON_EXISTING\<close>, and in which both
  children of every internal node are allocated and are not \<open>NODE_NON_EXISTING\<close>; take a
  row that has a value at every primary and surrogate feature index stored in the tree.
  Then the walk of \<open>search\<close> terminates without a fault, and the index it returns holds
  \<open>IN_PROCESS_LEAF\<close> or \<open>FINISHED_LEAF\<close>.
\<close>

theorem search_reaches_leaf:
  assumes "arrays_consistent t" and "children_exist t" and "row_fits t cat_features con_features"
    and "0 < length (feature_indices t)" and "feature_indices t ! 0 \<noteq> NODE_NON_EXISTING"
  shows "\<exists>leaf. search isNull t cat_features con_features = Inr leaf
           \<and> 0 \<le> leaf \<and> leaf < int (length (feature_indices t))
           \<and> (feature_indices t ! nat leaf = IN_PROCESS_LEAF
              \<or> feature_indices t ! nat leaf = FINISHED_LEAF)"
  unfolding search_def
  using assms by (intro search_loop_reaches_leaf) simp_all

lemma ex_stump_ok:
  "arrays_consistent example_stump" "children_exist example_stump"
  "row_fits example_stump [] [1 / 2]"
  by code_simp+

lemma ex_stump_search: "search example_null_test example_stump [] [1 / 2] = Inr 1"
  by code_simp

lemma ex_nne_ok: "children_exist example_non_existing_root" "leaves_childless example_non_existing_root"
  by code_simp+

lemma ex_nne_search: "search example_null_test example_non_existing_root [0] [1] = Inl AssertionFailed"
  by code_simp


theorem search_reaches_leaf_witness:
  "arrays_consistent example_stump \<and> children_exist example_stump
   \<and> row_fits example_stump [] [1 / 2]
   \<and> 0 < length (feature_indices example_stump)
   \<and> feature_indices example_stump ! 0 \<noteq> NODE_NON_EXISTING
   \<and> search example_null_test example_stump [] [1 / 2] = Inr 1
   \<and> feature_indices example_stump ! nat 1 = FINISHED_LEAF"
proof -
  have h: "0 < length (feature_indices example_stump)"
    "feature_indices example_stump ! 0 \<noteq> NODE_NON_EXISTING"
    by (simp_all add: example_stump_def NODE_NON_EXISTING_def)
  from search_reaches_leaf [OF ex_stump_ok h, of example_null_test]
  have "feature_indices example_stump ! nat 1 = IN_PROCESS_LEAF
        \<or> feature_indices example_stump ! nat 1 = FINISHED_LEAF"
    by (simp add: ex_stump_search)
  then have "feature_indices example_stump ! nat 1 = FINISHED_LEAF"
    by (simp add: example_stump_def IN_PROCESS_LEAF_def FINISHED_LEAF_def)
  with h ex_stump_ok ex_stump_search show ?thesis by simp
qed

text \<open>
  The claim as stated fails: a one-slot tree holding \<open>NODE_NON_EXISTING\<close> satisfies the two
  invariants the claim names, and the walk stops at its assertion instead of a leaf.
\<close>

theorem search_non_existing_root_counterexample:
  "children_exist example_non_existing_root \<and> leaves_childless example_non_existing_root
   \<and> search example_null_test example_non_existing_root [0] [1] = Inl AssertionFailed"
  using ex_nne_ok ex_nne_search by simp

section \<open>The surrogate pass reads the primary feature before its guard\<close>

lemma ex_surr2: "search example_null_test example_regression_tree [0] [1] = Inr 0"
  "parentIndex 0 = 0"
  "feature_indices example_regression_tree ! 0 = FINISHED_LEAF"
  "read_primary_val example_regression_tree [0] [1] 0 = Inl OutOfBounds"
  by code_simp+

lemma ex_acc_dims: "n_cat_features example_accumulator = 1" "n_con_features example_accumulator = 1"
  by (simp_all add: example_accumulator_def)

lemma ex_surr: "accumulate_surr example_null_test example_accumulator
     (example_regression_tree, [0], [1], [1], [[1]], 1) = Inl OutOfBounds"
  by (simp add: accumulate_surr_def ex_surr2 ex_acc_dims)


text \<open>
  Claim C10. The claim asks that the row's primary feature value is read only when the
  parent of the reached leaf holds a real split. The code reads it first and tests
  \<^verbatim>\<open>feature_indices(dt_parent_index) >= 0\<close> afterwards: for a one-node tree the walk
  returns the root, whose parent is the root itself and whose feature index is the
  sentinel \<open>FINISHED_LEAF\<close>, and the read indexes the feature vector with it.
\<close>

theorem surrogate_pass_reads_sentinel_index:
  "search example_null_test example_regression_tree [0] [1] = Inr 0
   \<and> parentIndex 0 = 0
   \<and> feature_indices example_regression_tree ! 0 = FINISHED_LEAF
   \<and> FINISHED_LEAF < 0
   \<and> read_primary_val example_regression_tree [0] [1] 0 = Inl OutOfBounds
   \<and> accumulate_surr example_null_test example_accumulator
        (example_regression_tree, [0], [1], [1], [[1]], 1) = Inl OutOfBounds"
  using ex_surr2 ex_surr by (simp add: FINISHED_LEAF_def)

section \<open>Split admission in the expander\<close>






lemma kernel_ignores_predictions [simp]:
  "statPredict (t\<lparr>predictions := p\<rparr>) s = statPredict t s"
  "statWeightedCount (t\<lparr>predictions := p\<rparr>) s = statWeightedCount t s"
  by (simp_all add: statPredict_def statWeightedCount_def)

lemma impurity_ignores_predictions [simp]:
  "impurity (t\<lparr>predictions := p\<rparr>) s = impurity t s"
  by (simp add: impurity_def)

lemma impurityGain_ignores_predictions [simp]:
  "impurityGain (t\<lparr>predictions := p\<rparr>) cs sps = impurityGain t cs sps"
  by (simp add: impurityGain_def cong: if_cong)

lemma consider_split_ignores_predictions [simp]:
  "consider_split (t\<lparr>predictions := p\<rparr>) sps cs f v c best = consider_split t sps cs f v c best"
  by (simp add: consider_split_def)

lemma scan_feature_ignores_predictions [simp]:
  "scan_cat_feature (t\<lparr>predictions := p\<rparr>) st i = scan_cat_feature t st i"
  "scan_con_feature (t\<lparr>predictions := p\<rparr>) st i = scan_con_feature t st i"
  by (simp_all add: fun_eq_iff scan_cat_feature_def scan_con_feature_def)

lemma scan_ignores_predictions [simp]:
  "scan_candidates (t\<lparr>predictions := p\<rparr>) st i = scan_candidates t st i"
  by (simp add: scan_candidates_def)


















section \<open>Surrogate training\<close>

lemma trunc_ge_count:
  assumes "real n \<le> x"
  shows "int n \<le> trunc x"
proof -
  have "0 \<le> x" using assms by (rule order_trans [rotated]) simp
  moreover have "int n \<le> \<lfloor>x\<rfloor>" using assms by (simp add: le_floor_iff)
  ultimately show ?thesis by (simp add: trunc_def)
qed

lemma store_surrogate_facts:
  assumes "store_surrogate t slot idx th status c = Inr t'"
  shows "feature_indices t' = feature_indices t" "is_categorical t' = is_categorical t"
    "nonnull_split_count t' = nonnull_split_count t" "max_n_surr t' = max_n_surr t"
    "0 \<le> slot" "nat slot < length (surr_indices t)" "nat slot < length (surr_agreement t)"
    "surr_indices t' = (surr_indices t)[nat slot := idx]"
    "surr_agreement t' = (surr_agreement t)[nat slot := trunc c]"
proof -
  from assms obtain si sth ss ag sa where
    si: "vec_set (surr_indices t) slot idx = Inr si"
    and ag: "cast_int c = Inr ag"
    and sa: "vec_set (surr_agreement t) slot ag = Inr sa"
    and t': "t' = t\<lparr>surr_indices := si, surr_thresholds := sth, surr_status := ss,
            surr_agreement := sa\<rparr>"
    unfolding store_surrogate_def bindR_eq_Inr by blast
  from ag have ag': "ag = trunc c" by (auto simp: cast_int_def split: if_splits)
  show "feature_indices t' = feature_indices t" "is_categorical t' = is_categorical t"
    "nonnull_split_count t' = nonnull_split_count t" "max_n_surr t' = max_n_surr t"
    by (simp_all add: t')
  from si show "0 \<le> slot" "nat slot < length (surr_indices t)"
    by (auto simp: vec_set_eq_Inr)
  from sa show "nat slot < length (surr_agreement t)" by (auto simp: vec_set_eq_Inr)
  from si show "surr_indices t' = (surr_indices t)[nat slot := idx]"
    by (simp add: t' vec_set_eq_Inr)
  from sa show "surr_agreement t' = (surr_agreement t)[nat slot := trunc c]"
    by (simp add: t' vec_set_eq_Inr ag')
qed

lemma getMajorityCount_cong:
  assumes "feature_indices t' = feature_indices t"
    and "nonnull_split_count t' = nonnull_split_count t"
  shows "getMajorityCount t' node = getMajorityCount t node"
  by (simp add: getMajorityCount_def assms cong: if_cong)

lemma bindR_InrE [consumes 1, case_names ok]:
  assumes "bindR m f = Inr y"
  obtains v where "m = Inr v" and "f v = Inr y"
  using assms by (auto simp: bindR_eq_Inr)

text \<open>One step of the walk, as the three outcomes it can have.\<close>

lemma surr_walk_step:
  assumes run: "surr_walk n_cats b node (c # rest) (t, k) = Inr (t', k')"
    and maj: "getMajorityCount t node = Inr majority"
    and len: "length (cat_max_count b) = n_cats"
  obtains (stop) "(cat_max_count b @ con_max_count b) ! nat c < real majority" "t' = t" "k' = k"
  | (skip) "real majority \<le> (cat_max_count b @ con_max_count b) ! nat c"
      "candidate_is_primary t n_cats node c"
      "surr_walk n_cats b node rest (t, k) = Inr (t', k')"
  | (store) t1 th status where "real majority \<le> (cat_max_count b @ con_max_count b) ! nat c"
      "\<not> candidate_is_primary t n_cats node c"
      "store_surrogate t (node * int (max_n_surr t) + k) (local_index n_cats c) th status
         ((cat_max_count b @ con_max_count b) ! nat c) = Inr t1"
      "surr_walk n_cats b node rest (t1, k + 1) = Inr (t', k')"
proof -
  let ?all = "cat_max_count b @ con_max_count b"
  note r = run [unfolded surr_walk.simps prod.case]
  from r show thesis
  proof (cases rule: bindR_InrE)
    case (ok cnt)
    note cnt = ok(1) and r1 = ok(2) [unfolded maj bindR_simps]
    from cnt have c0: "0 \<le> c" and cnt': "cnt = ?all ! nat c"
      by (simp_all add: vec_at_eq_Inr)
    show ?thesis
    proof (cases "cnt < real majority")
      case True
      with r1 show ?thesis using stop cnt' by simp
    next
      case False
      then have ge: "real majority \<le> ?all ! nat c" using cnt' by simp
      note r2 = r1 [unfolded if_not_P [OF False] Let_def]
      from r2 show ?thesis
      proof (cases rule: bindR_InrE)
        case (ok is_cat)
        note ic = ok(1) and r3 = ok(2)
        from r3 show ?thesis
        proof (cases rule: bindR_InrE)
          case (ok primary)
          note pr = ok(1) and r4 = ok(2)
          from ic pr have ic': "is_cat = is_categorical t ! nat node"
            and pr': "primary = feature_indices t ! nat node"
            by (simp_all add: vec_at_eq_Inr)
          show ?thesis
          proof (cases "c < int n_cats")
            case cat: True
            then have li: "local_index n_cats c = c" by (simp add: local_index_def)
            have prim: "candidate_is_primary t n_cats node c \<longleftrightarrow> \<not> (is_cat \<noteq> 1 \<or> primary \<noteq> c)"
              using cat by (simp add: candidate_is_primary_def ic' pr')
            note r5 = r4 [unfolded if_P [OF cat]]
            show ?thesis
            proof (cases "is_cat \<noteq> 1 \<or> primary \<noteq> c")
              case False
              from r5 [unfolded if_not_P [OF False]] ge prim False show ?thesis using skip by simp
            next
              case True
              from r5 [unfolded if_P [OF True]] show ?thesis
              proof (cases rule: bindR_InrE)
                case (ok thres)
                from ok(2) show ?thesis
                proof (cases rule: bindR_InrE)
                  case (ok is_rev)
                  from ok(2) show ?thesis
                  proof (cases rule: bindR_InrE)
                    case (ok cc)
                    note cc = ok(1)
                    from ok(2) show ?thesis
                    proof (cases rule: bindR_InrE)
                      case (ok t1)
                      from cc have "cc = cat_max_count b ! nat c" by (simp add: vec_at_eq_Inr)
                      moreover have "nat c < length (cat_max_count b)" using cat c0 len by simp
                      ultimately have "cc = ?all ! nat c" by (simp add: nth_append)
                      with ok(1) li have "store_surrogate t (node * int (max_n_surr t) + k)
                          (local_index n_cats c) thres (if is_rev = 1 then - 1 else 1)
                          (?all ! nat c) = Inr t1" by simp
                      with ge prim True ok(2) show ?thesis using store by blast
                    qed
                  qed
                qed
              qed
            qed
          next
            case con: False
            then have li: "local_index n_cats c = c - int n_cats" by (simp add: local_index_def)
            have prim: "candidate_is_primary t n_cats node c
                         \<longleftrightarrow> \<not> (is_cat \<noteq> 0 \<or> primary \<noteq> c - int n_cats)"
              using con by (simp add: candidate_is_primary_def ic' pr')
            note r5 = r4 [unfolded if_not_P [OF con]]
            show ?thesis
            proof (cases "is_cat \<noteq> 0 \<or> primary \<noteq> c - int n_cats")
              case False
              from r5 [unfolded if_not_P [OF False]] ge prim False show ?thesis using skip by simp
            next
              case True
              from r5 [unfolded if_P [OF True]] show ?thesis
              proof (cases rule: bindR_InrE)
                case (ok thres)
                from ok(2) show ?thesis
                proof (cases rule: bindR_InrE)
                  case (ok is_rev)
                  from ok(2) show ?thesis
                  proof (cases rule: bindR_InrE)
                    case (ok cc)
                    note cc = ok(1)
                    from ok(2) show ?thesis
                    proof (cases rule: bindR_InrE)
                      case (ok t1)
                      from cc have "cc = con_max_count b ! nat (c - int n_cats)"
                        by (simp add: vec_at_eq_Inr)
                      moreover have "nat c - length (cat_max_count b) = nat (c - int n_cats)"
                        using con c0 len by simp
                      moreover have "\<not> nat c < length (cat_max_count b)" using con c0 len by simp
                      ultimately have "cc = ?all ! nat c" by (simp add: nth_append)
                      with ok(1) li have "store_surrogate t (node * int (max_n_surr t) + k)
                          (local_index n_cats c) thres (if is_rev = 1 then - 2 else 2)
                          (?all ! nat c) = Inr t1" by simp
                      with ge prim True ok(2) show ?thesis using store by blast
                    qed
                  qed
                qed
              qed
            qed
          qed
        qed
      qed
    qed
  qed
qed

lemma candidate_is_primary_cong:
  assumes "feature_indices t' = feature_indices t" and "is_categorical t' = is_categorical t"
  shows "candidate_is_primary t' n_cats node c = candidate_is_primary t n_cats node c"
  by (simp add: candidate_is_primary_def assms)

lemma stored_candidates_cong:
  assumes "feature_indices t' = feature_indices t" and "is_categorical t' = is_categorical t"
  shows "stored_candidates t' n_cats b node majority cands
           = stored_candidates t n_cats b node majority cands"
  by (simp add: stored_candidates_def candidate_is_primary_cong [OF assms])

lemma stored_candidates_simps:
  "stored_candidates t n_cats b node majority [] = []"
  "(cat_max_count b @ con_max_count b) ! nat c < real majority
     \<Longrightarrow> stored_candidates t n_cats b node majority (c # rest) = []"
  "real majority \<le> (cat_max_count b @ con_max_count b) ! nat c
     \<Longrightarrow> candidate_is_primary t n_cats node c
     \<Longrightarrow> stored_candidates t n_cats b node majority (c # rest)
           = stored_candidates t n_cats b node majority rest"
  "real majority \<le> (cat_max_count b @ con_max_count b) ! nat c
     \<Longrightarrow> \<not> candidate_is_primary t n_cats node c
     \<Longrightarrow> stored_candidates t n_cats b node majority (c # rest)
           = c # stored_candidates t n_cats b node majority rest"
  by (simp_all add: stored_candidates_def)

lemma surr_walk_result:
  assumes len: "length (cat_max_count b) = n_cats"
  shows "surr_walk n_cats b node cands (t, k) = Inr (t', k')
         \<Longrightarrow> getMajorityCount t node = Inr majority \<Longrightarrow> 0 \<le> k
         \<Longrightarrow> 0 \<le> node
         \<Longrightarrow> walk_result n_cats b node majority cands t k t' k'"
proof (induction cands arbitrary: t k)
  case Nil
  then show ?case by (simp add: walk_result_def stored_candidates_simps)
next
  case (Cons c rest)
  let ?all = "cat_max_count b @ con_max_count b"
  let ?base = "node * int (max_n_surr t) + k"
  have base0: "0 \<le> ?base" using Cons.prems(3,4) by simp
  from Cons.prems(1,2) len show ?case
  proof (cases rule: surr_walk_step)
    case stop
    then show ?thesis by (simp add: walk_result_def stored_candidates_simps)
  next
    case skip
    from Cons.IH [OF skip(3) Cons.prems(2,3,4)] show ?thesis
      by (simp add: walk_result_def stored_candidates_simps(3) [OF skip(1,2)])
  next
    case (store t1 th status)
    note sf = store_surrogate_facts [OF store(3)]
    have maj1: "getMajorityCount t1 node = Inr majority"
      using Cons.prems(2) getMajorityCount_cong [OF sf(1,3)] by simp
    have k1: "0 \<le> k + 1" using Cons.prems(3) by simp
    note ih = Cons.IH [OF store(4) maj1 k1 Cons.prems(4), unfolded walk_result_def Let_def
        stored_candidates_cong [OF sf(1,2)] sf(1-4)]
    let ?rest = "stored_candidates t n_cats b node majority rest"
    have st: "stored_candidates t n_cats b node majority (c # rest) = c # ?rest"
      by (rule stored_candidates_simps(4) [OF store(1,2)])
    have b1: "node * int (max_n_surr t) + (k + 1) = ?base + 1" by simp
    have p_lt: "nat ?base < nat (?base + 1)" using base0 by simp
    have si_p: "surr_indices t' ! nat ?base = local_index n_cats c"
    proof -
      have "surr_indices t' ! nat ?base = surr_indices t1 ! nat ?base"
        using ih p_lt unfolding b1 by blast
      then show ?thesis using sf(6,8) by simp
    qed
    have sa_p: "int majority \<le> surr_agreement t' ! nat ?base"
    proof -
      have "surr_agreement t' ! nat ?base = surr_agreement t1 ! nat ?base"
        using ih p_lt unfolding b1 by blast
      then show ?thesis using sf(7,9) trunc_ge_count [OF store(1)] by simp
    qed
    have slots: "surr_indices t' ! nat (?base + int j) = local_index n_cats ((c # ?rest) ! j)
            \<and> int majority \<le> surr_agreement t' ! nat (?base + int j)"
      if "j < length (c # ?rest)" for j
    proof (cases j)
      case 0
      then show ?thesis using si_p sa_p by simp
    next
      case (Suc j')
      then have "j' < length ?rest" using that by simp
      with ih have "surr_indices t' ! nat (?base + 1 + int j') = local_index n_cats (?rest ! j')
            \<and> int majority \<le> surr_agreement t' ! nat (?base + 1 + int j')"
        unfolding b1 by blast
      moreover have "?base + 1 + int j' = ?base + int j" using Suc by simp
      ultimately show ?thesis using Suc by simp
    qed
    have frame: "surr_indices t' ! s = surr_indices t ! s
            \<and> surr_agreement t' ! s = surr_agreement t ! s"
      if "s < nat ?base \<or> nat (?base + int (length (c # ?rest))) \<le> s" for s
    proof -
      have e: "?base + 1 + int (length ?rest) = ?base + int (length (c # ?rest))" by simp
      from that have "s < nat (?base + 1) \<or> nat (?base + 1 + int (length ?rest)) \<le> s"
        unfolding e using base0 by linarith
      with ih have "surr_indices t' ! s = surr_indices t1 ! s
            \<and> surr_agreement t' ! s = surr_agreement t1 ! s"
        unfolding b1 by blast
      moreover from that have "s \<noteq> nat ?base" using base0 by (auto simp: nat_add_distrib)
      ultimately show ?thesis using sf(8,9) by simp
    qed
    have keep: "feature_indices t' = feature_indices t" "is_categorical t' = is_categorical t"
      "nonnull_split_count t' = nonnull_split_count t" "max_n_surr t' = max_n_surr t"
      "length (surr_indices t') = length (surr_indices t)"
      "length (surr_agreement t') = length (surr_agreement t)"
      "k' = k + int (length (c # ?rest))"
      using ih sf(8,9) by simp_all
    show ?thesis
      unfolding walk_result_def Let_def st
      using keep slots frame by simp
  qed
qed

lemma foldR_length:
  assumes "foldR f xs s = Inr s'"
    and "\<And>x s s'. f x s = Inr s' \<Longrightarrow> len s' = Suc (len s)"
  shows "len s' = len s + length xs"
  using assms(1)
proof (induction xs arbitrary: s)
  case Nil
  then show ?case by simp
next
  case (Cons x xs)
  from Cons.prems obtain s1 where s1: "f x s = Inr s1" and r: "foldR f xs s1 = Inr s'"
    by (auto simp: bindR_eq_Inr)
  from Cons.IH [OF r] assms(2) [OF s1] show ?case by simp
qed

lemma best_per_feature_lengths:
  assumes "best_per_feature st con_splits cat_row con_row = Inr b"
  shows "length (cat_max_count b) = n_cat_features st"
    and "length (con_max_count b) = n_con_features st"
proof -
  from assms obtain cs ns where
    c: "foldR (cat_best_step st cat_row) [0..<n_cat_features st] (0, [], [], []) = Inr cs"
    and n: "foldR (con_best_step st con_splits con_row) [0..<n_con_features st] ([], [], []) = Inr ns"
    and b: "cat_max_count b = fst (snd (snd cs))" "con_max_count b = fst (snd ns)"
    unfolding best_per_feature_def
    by (auto simp: bindR_eq_Inr split: prod.splits)
  have "length (fst (snd (snd cs))) = length (fst (snd (snd (0::int, []::real list, []::real list, []::int list))))
          + length [0..<n_cat_features st]"
    by (rule foldR_length [OF c])
       (auto simp: cat_best_step_def bindR_eq_Inr Let_def split: prod.splits)
  then show "length (cat_max_count b) = n_cat_features st" by (simp add: b)
  have "length (fst (snd ns)) = length (fst (snd ([]::real list, []::real list, []::int list)))
          + length [0..<n_con_features st]"
    by (rule foldR_length [OF n])
       (auto simp: con_best_step_def bindR_eq_Inr split: prod.splits)
  then show "length (con_max_count b) = n_con_features st" by (simp add: b)
qed

lemma length_argsort [simp]: "length (argsort x) = length x"
  by (simp add: argsort_def)

lemma pick_node_walk:
  assumes run: "pick_node st con_splits cat_counts con_counts n_ancestors i t = Inr t'"
    and maj: "getMajorityCount t (n_ancestors + i) = Inr majority"
  obtains b k' where "best_per_feature st con_splits (cat_counts ! nat i) (con_counts ! nat i) = Inr b"
    and "surr_walk (n_cat_features st) b (n_ancestors + i) (walk_candidates t b) (t, 0) = Inr (t', k')"
    and "0 \<le> n_ancestors + i"
proof -
  let ?node = "n_ancestors + i"
  from maj obtain f where f: "vec_at (feature_indices t) ?node = Inr f" and f0: "\<not> f < 0"
    unfolding getMajorityCount_def by (auto simp: bindR_eq_Inr split: if_splits)
  from f have rng: "0 \<le> ?node \<and> ?node < int (length (feature_indices t))"
    by (simp add: vec_at_eq_Inr)
  from f0 have f1: "0 \<le> f" by simp
  from rng have nn: "\<not> \<not> (0 \<le> ?node \<and> ?node < int (length (feature_indices t)))" by simp
  note r = run [unfolded pick_node_def Let_def if_not_P [OF nn] f bindR_simps if_P [OF f1]]
  from r show thesis
  proof (cases rule: bindR_InrE)
    case (ok cat_row)
    note cr = ok(1)
    from ok(2) show ?thesis
    proof (cases rule: bindR_InrE)
      case (ok con_row)
      note nr = ok(1)
      from ok(2) show ?thesis
      proof (cases rule: bindR_InrE)
        case (ok b)
        note b = ok(1)
        from ok(2) show ?thesis
        proof (cases rule: bindR_InrE)
          case (ok res)
          obtain t1 k' where res: "res = (t1, k')" by (cases res)
          with ok(2) have t1: "t1 = t'" by simp
          from cr nr have rows: "cat_row = cat_counts ! nat i" "con_row = con_counts ! nat i"
            by (simp_all add: vec_at_eq_Inr)
          have mx: "(if length (cat_max_count b @ con_max_count b) < max_n_surr t
                     then length (cat_max_count b @ con_max_count b) else max_n_surr t)
                    = min (length (cat_max_count b @ con_max_count b)) (max_n_surr t)"
            by simp
          from ok(1) have "surr_walk (n_cat_features st) b ?node (walk_candidates t b) (t, 0)
                = Inr (t', k')"
            unfolding walk_candidates_def res t1 length_argsort mx .
          with b rows rng show ?thesis using that by simp
        qed
      qed
    qed
  qed
qed



lemma getMajorityCount_whole:
  assumes "vec_at (feature_indices t) node = Inr f" and "0 \<le> f"
    and "vec_at (nonnull_split_count t) (node * 2) = Inr (real a)"
    and "vec_at (nonnull_split_count t) (node * 2 + 1) = Inr (real b)"
    and "a < 2 ^ 64" and "b < 2 ^ 64"
  shows "getMajorityCount t node = Inr (max a b)"
proof -
  have "real a < 2 ^ 64" "real b < 2 ^ 64"
    using assms(5,6) by (metis of_nat_less_iff of_nat_numeral of_nat_power)+
  then have "cast_uint64 (real a) = Inr a" "cast_uint64 (real b) = Inr b"
    by (simp_all add: cast_uint64_def)
  then show ?thesis
    using assms(1-4) by (simp add: getMajorityCount_def max_def)
qed

lemma ex_surr_majority: "getMajorityCount example_surr_tree 0 = Inr 2"
  by code_simp


lemma ex_pick_node:
  "pick_node example_surr_stats [] [[0, 0, 0, 0, 4, 0, 2, 2]] [[]] 0 0 example_surr_tree
     = Inr example_trained_tree"
  by code_simp

lemma ex_pickSurrogates:
  "pickSurrogates example_surr_tree example_surr_stats [] = Inr example_trained_tree"
  "pickSurrogates example_surr_tree example_primary_counted_stats [] = Inr example_surr_tree"
  by code_simp+

lemma ex_surr_fresh:
  "\<forall>j<max_n_surr example_surr_tree.
     surr_indices example_surr_tree ! (nat (0 + 0) * max_n_surr example_surr_tree + j)
       = SURR_NON_EXISTING"
  by (simp add: example_surr_tree_def)

lemma ex_trained:
  "max_n_surr example_surr_tree = 1"
  "surr_indices example_trained_tree ! 0 = 1"
  "surr_agreement example_trained_tree ! 0 = 4"
  by (simp_all add: example_trained_tree_def example_surr_tree_def)

text \<open>
  Claim C4. When the loop body of \<open>pickSurrogates\<close> has run for an internal node \<open>n\<close> whose
  surrogate slots were unused (\<open>SURR_NON_EXISTING\<close>, as \<open>incrementInPlace\<close> leaves them), every
  slot of \<open>n\<close> that holds a surrogate has \<open>surr_agreement\<close> at least the majority count of
  \<open>n\<close>, the value of \<open>getMajorityCount\<close>: the larger of the two counts in
  \<open>nonnull_split_count\<close>.
\<close>

theorem surrogate_dominance:
  assumes run: "pick_node st con_splits cat_counts con_counts n_ancestors i t = Inr t'"
    and maj: "getMajorityCount t (n_ancestors + i) = Inr majority"
    and fresh: "\<forall>j<max_n_surr t.
        surr_indices t ! (nat (n_ancestors + i) * max_n_surr t + j) = SURR_NON_EXISTING"
  shows "\<forall>j<max_n_surr t.
           0 \<le> surr_indices t' ! (nat (n_ancestors + i) * max_n_surr t + j)
           \<longrightarrow> int majority \<le> surr_agreement t' ! (nat (n_ancestors + i) * max_n_surr t + j)"
proof (intro allI impI)
  fix j
  assume j: "j < max_n_surr t"
    and used: "0 \<le> surr_indices t' ! (nat (n_ancestors + i) * max_n_surr t + j)"
  let ?node = "n_ancestors + i"
  let ?m = "max_n_surr t"
  from run maj obtain b k' where
    b: "best_per_feature st con_splits (cat_counts ! nat i) (con_counts ! nat i) = Inr b"
    and w: "surr_walk (n_cat_features st) b ?node (walk_candidates t b) (t, 0) = Inr (t', k')"
    and n0: "0 \<le> ?node"
    by (rule pick_node_walk)
  let ?stored = "stored_candidates t (n_cat_features st) b ?node majority (walk_candidates t b)"
  note wr = surr_walk_result [OF best_per_feature_lengths(1) [OF b] w maj order_refl n0,
      unfolded walk_result_def Let_def]
  have slot: "nat (?node * int ?m + 0 + int j) = nat ?node * ?m + j" for j
    using n0 by (simp add: nat_add_distrib nat_mult_distrib)
  show "int majority \<le> surr_agreement t' ! (nat ?node * ?m + j)"
  proof (cases "j < length ?stored")
    case True
    with wr have "int majority \<le> surr_agreement t' ! nat (?node * int ?m + 0 + int j)" by blast
    then show ?thesis unfolding slot .
  next
    case False
    then have "nat (?node * int ?m + 0 + int (length ?stored)) \<le> nat ?node * ?m + j"
      unfolding slot by simp
    with wr have "surr_indices t' ! (nat ?node * ?m + j) = surr_indices t ! (nat ?node * ?m + j)"
      by blast
    with fresh j used show ?thesis by (simp add: SURR_NON_EXISTING_def)
  qed
qed

theorem surrogate_dominance_witness:
  "pick_node example_surr_stats [] [[0, 0, 0, 0, 4, 0, 2, 2]] [[]] 0 0 example_surr_tree
     = Inr example_trained_tree
   \<and> getMajorityCount example_surr_tree (0 + 0) = Inr 2
   \<and> max_n_surr example_surr_tree = 1
   \<and> surr_indices example_surr_tree ! 0 = SURR_NON_EXISTING
   \<and> 0 \<le> surr_indices example_trained_tree ! 0
   \<and> int 2 \<le> surr_agreement example_trained_tree ! 0"
proof -
  have maj: "getMajorityCount example_surr_tree (0 + 0) = Inr 2"
    using ex_surr_majority by simp
  from surrogate_dominance [OF ex_pick_node maj ex_surr_fresh, rule_format, of 0]
  have "int 2 \<le> surr_agreement example_trained_tree ! 0"
    by (simp add: ex_trained)
  moreover have "surr_indices example_surr_tree ! 0 = SURR_NON_EXISTING"
    by (simp add: example_surr_tree_def)
  ultimately show ?thesis using ex_pick_node maj by (simp add: ex_trained)
qed





section \<open>Shards, feed order and merging\<close>

subsection \<open>Adding matrices\<close>





lemma same_shape_refl [simp]: "same_shape a a"
  by (simp add: same_shape_def list_all2_refl)



lemma same_shape_iff:
  "same_shape a b \<longleftrightarrow> length a = length b \<and> (\<forall>i<length a. length (a ! i) = length (b ! i))"
  by (simp add: same_shape_def list_all2_conv_all_nth)

lemma length_mplus: "same_shape a b \<Longrightarrow> length (mplus a b) = length a"
  by (simp add: same_shape_iff mplus_def)

lemma mplus_nth:
  "same_shape a b \<Longrightarrow> i < length a \<Longrightarrow> mplus a b ! i = map2 (+) (a ! i) (b ! i)"
  by (simp add: same_shape_iff mplus_def)


lemma same_shape_update:
  assumes "same_shape m d" and "length row = length (m ! r)"
  shows "same_shape (m[r := row]) d"
proof -
  have "length (m[r := row] ! i) = length (d ! i)" if "i < length m" for i
    using that assms by (cases "i = r") (simp_all add: same_shape_iff)
  with assms(1) show ?thesis by (simp add: same_shape_iff)
qed

lemma add_cells_plus:
  assumes "length row = length d"
  shows "map2 (+) (add_cells row c vs) d = add_cells (map2 (+) row d) c vs"
proof (rule nth_equalityI)
  show "length (map2 (+) (add_cells row c vs) d) = length (add_cells (map2 (+) row d) c vs)"
    using assms by simp
next
  fix j assume "j < length (map2 (+) (add_cells row c vs) d)"
  then have j: "j < length row" "j < length d" using assms by simp_all
  then show "map2 (+) (add_cells row c vs) d ! j = add_cells (map2 (+) row d) c vs ! j"
    using assms by (simp add: add_cells_nth)
qed

lemma mplus_update:
  assumes sh: "same_shape m d" and r: "r < length m" and l: "length row = length (m ! r)"
  shows "mplus (m[r := row]) d = (mplus m d)[r := map2 (+) row (d ! r)]"
proof (rule nth_equalityI)
  from sh have ld: "length d = length m" by (simp add: same_shape_iff)
  show "length (mplus (m[r := row]) d) = length ((mplus m d)[r := map2 (+) row (d ! r)])"
    by (simp add: mplus_def)
  fix i assume "i < length (mplus (m[r := row]) d)"
  then have i: "i < length m" using ld by (simp add: mplus_def)
  then show "mplus (m[r := row]) d ! i = (mplus m d)[r := map2 (+) row (d ! r)] ! i"
    using ld r by (cases "i = r") (simp_all add: mplus_def)
qed

lemma add_segment_shift:
  assumes run: "add_segment m r c vs = Inr m'" and sh: "same_shape m d"
  shows "add_segment (mplus m d) r c vs = Inr (mplus m' d)" and "same_shape m' d"
proof -
  from run have b: "0 \<le> r" "r < int (length m)" "0 \<le> c"
    "c + int (length vs) \<le> int (length (m ! nat r))"
    and m': "m' = m[nat r := add_cells (m ! nat r) (nat c) vs]"
    by (simp_all add: add_segment_eq_Inr)
  from b have r: "nat r < length m" by linarith
  from sh r have lr: "length (m ! nat r) = length (d ! nat r)" by (simp add: same_shape_iff)
  have row: "mplus m d ! nat r = map2 (+) (m ! nat r) (d ! nat r)"
    by (rule mplus_nth [OF sh r])
  have "mplus m' d = (mplus m d)[nat r := add_cells (mplus m d ! nat r) (nat c) vs]"
    unfolding m' row
    by (simp add: mplus_update [OF sh r] add_cells_plus [OF lr])
  moreover have "length (mplus m d) = length m" by (rule length_mplus [OF sh])
  moreover have "length (mplus m d ! nat r) = length (m ! nat r)" using lr by (simp add: row)
  ultimately show "add_segment (mplus m d) r c vs = Inr (mplus m' d)"
    using b by (simp add: add_segment_def)
  show "same_shape m' d" unfolding m' by (rule same_shape_update [OF sh]) simp
qed

lemma add_row_shift:
  assumes run: "add_row m r vs = Inr m'" and sh: "same_shape m d"
  shows "add_row (mplus m d) r vs = Inr (mplus m' d)" and "same_shape m' d"
proof -
  from run have b: "0 \<le> r" "r < int (length m)" "length (m ! nat r) = length vs"
    and m': "m' = m[nat r := add_cells (m ! nat r) 0 vs]"
    by (simp_all add: add_row_eq_Inr)
  from b have r: "nat r < length m" by linarith
  from sh r have lr: "length (m ! nat r) = length (d ! nat r)" by (simp add: same_shape_iff)
  have row: "mplus m d ! nat r = map2 (+) (m ! nat r) (d ! nat r)"
    by (rule mplus_nth [OF sh r])
  have "mplus m' d = (mplus m d)[nat r := add_cells (mplus m d ! nat r) 0 vs]"
    unfolding m' row
    by (simp add: mplus_update [OF sh r] add_cells_plus [OF lr])
  moreover have "length (mplus m d) = length m" by (rule length_mplus [OF sh])
  moreover have "length (mplus m d ! nat r) = length vs" using lr b(3) by (simp add: row)
  ultimately show "add_row (mplus m d) r vs = Inr (mplus m' d)"
    using b by (simp add: add_row_def)
  show "same_shape m' d" unfolding m' by (rule same_shape_update [OF sh]) simp
qed

lemma framed_refl [simp]: "framed a a"
  by (simp add: framed_def)

lemma framed_trans: "framed a b \<Longrightarrow> framed b c \<Longrightarrow> framed a c"
  by (cases a; cases b; cases c) (simp add: framed_def)

lemma framed_updates [simp]:
  "framed a (a\<lparr>cat_stats := m\<rparr>)" "framed a (a\<lparr>con_stats := m\<rparr>)"
  "framed a (a\<lparr>node_stats := m\<rparr>)" "framed a (a\<lparr>n_rows := n\<rparr>)"
  by (simp_all add: framed_def)

lemma shift_stats_fields [simp]:
  "n_rows (shift_stats C N D k a) = k"
  "terminated (shift_stats C N D k a) = terminated a"
  "n_bins (shift_stats C N D k a) = n_bins a"
  "n_cat_features (shift_stats C N D k a) = n_cat_features a"
  "n_con_features (shift_stats C N D k a) = n_con_features a"
  "n_leaf_nodes (shift_stats C N D k a) = n_leaf_nodes a"
  "stats_per_split (shift_stats C N D k a) = stats_per_split a"
  "weights_as_rows (shift_stats C N D k a) = weights_as_rows a"
  "cat_levels_cumsum (shift_stats C N D k a) = cat_levels_cumsum a"
  "cat_stats (shift_stats C N D k a) = mplus (cat_stats a) C"
  "con_stats (shift_stats C N D k a) = mplus (con_stats a) N"
  "node_stats (shift_stats C N D k a) = mplus (node_stats a) D"
  by (simp_all add: shift_stats_def)

lemma row_stats_shift [simp]:
  "row_stats (shift_stats C N D k a) is_reg y w = row_stats a is_reg y w"
  by (simp add: row_stats_def)

lemma indexCatStats_shift [simp]:
  "indexCatStats (shift_stats C N D k a) i j t = indexCatStats a i j t"
  by (simp add: indexCatStats_def computeSubIndex_def Let_def cong: if_cong)

lemma indexConStats_shift [simp]:
  "indexConStats (shift_stats C N D k a) i j t = indexConStats a i j t"
  by (simp add: indexConStats_def computeSubIndex_def Let_def cong: if_cong)

lemma updateNodeStats_shift:
  assumes run: "updateNodeStats a is_reg i y w = Inr a'" and sh: "shiftable C N D a"
  shows "updateNodeStats (shift_stats C N D k a) is_reg i y w = Inr (shift_stats C N D k a')
         \<and> shiftable C N D a' \<and> framed a a'"
proof -
  from run have g: "\<not> (\<not> is_reg \<and> y < 0)"
    by (auto simp: updateNodeStats_def)
  from run g obtain stats m where st: "row_stats a is_reg y w = Inr stats"
    and m: "add_row (node_stats a) i stats = Inr m" and a': "a' = a\<lparr>node_stats := m\<rparr>"
    by (auto simp: updateNodeStats_def bindR_eq_Inr)
  from sh have s: "same_shape (node_stats a) D" by (simp add: shiftable_def)
  note r = add_row_shift [OF m s]
  have "updateNodeStats (shift_stats C N D k a) is_reg i y w = Inr (shift_stats C N D k a')"
    using g by (simp add: updateNodeStats_def st r(1)) (simp add: shift_stats_def a')
  moreover have "shiftable C N D a'" using sh r(2) by (simp add: shiftable_def a')
  ultimately show ?thesis by (simp add: a')
qed

lemma updateStats_shift:
  assumes run: "updateStats a is_reg is_cat i c y w = Inr a'" and sh: "shiftable C N D a"
  shows "updateStats (shift_stats C N D k a) is_reg is_cat i c y w = Inr (shift_stats C N D k a')
         \<and> shiftable C N D a' \<and> framed a a'"
proof (cases is_cat)
  case True
  from run True obtain stats m where st: "row_stats a is_reg y w = Inr stats"
    and m: "add_segment (cat_stats a) i c stats = Inr m" and a': "a' = a\<lparr>cat_stats := m\<rparr>"
    by (auto simp: updateStats_def bindR_eq_Inr)
  from sh have s: "same_shape (cat_stats a) C" by (simp add: shiftable_def)
  note r = add_segment_shift [OF m s]
  have "updateStats (shift_stats C N D k a) is_reg is_cat i c y w = Inr (shift_stats C N D k a')"
    using True by (simp add: updateStats_def st r(1)) (simp add: shift_stats_def a')
  moreover have "shiftable C N D a'" using sh r(2) by (simp add: shiftable_def a')
  ultimately show ?thesis by (simp add: a')
next
  case False
  from run False obtain stats m where st: "row_stats a is_reg y w = Inr stats"
    and m: "add_segment (con_stats a) i c stats = Inr m" and a': "a' = a\<lparr>con_stats := m\<rparr>"
    by (auto simp: updateStats_def bindR_eq_Inr)
  from sh have s: "same_shape (con_stats a) N" by (simp add: shiftable_def)
  note r = add_segment_shift [OF m s]
  have "updateStats (shift_stats C N D k a) is_reg is_cat i c y w = Inr (shift_stats C N D k a')"
    using False by (simp add: updateStats_def st r(1)) (simp add: shift_stats_def a')
  moreover have "shiftable C N D a'" using sh r(2) by (simp add: shiftable_def a')
  ultimately show ?thesis by (simp add: a')
qed

lemma foldR_shift:
  assumes step: "\<And>x a a'. f x a = Inr a' \<Longrightarrow> shiftable C N D a \<Longrightarrow>
      f x (shift_stats C N D k a) = Inr (shift_stats C N D k a') \<and> shiftable C N D a' \<and> framed a a'"
    and run: "foldR f xs a = Inr a'" and sh: "shiftable C N D a"
  shows "foldR f xs (shift_stats C N D k a) = Inr (shift_stats C N D k a')
         \<and> shiftable C N D a' \<and> framed a a'"
  using run sh
proof (induction xs arbitrary: a)
  case Nil
  then show ?case by simp
next
  case (Cons x xs)
  from Cons.prems(1) obtain a1 where a1: "f x a = Inr a1" and r: "foldR f xs a1 = Inr a'"
    by (auto simp: bindR_eq_Inr)
  note s1 = step [OF a1 Cons.prems(2)]
  from s1 have sh1: "shiftable C N D a1" by simp
  note s2 = Cons.IH [OF r sh1]
  from s1 s2 have "framed a a'" by (blast intro: framed_trans)
  with s1 s2 show ?case by simp
qed

lemma update_cat_feature_shift:
  assumes run: "update_cat_feature isNull is_reg ri cf cl y w i a = Inr a'"
    and sh: "shiftable C N D a"
  shows "update_cat_feature isNull is_reg ri cf cl y w i (shift_stats C N D k a)
           = Inr (shift_stats C N D k a')
         \<and> shiftable C N D a' \<and> framed a a'"
proof -
  from run obtain n_levels where n: "vec_at cl (int i) = Inr n_levels"
    and f: "foldR (\<lambda>j a. bindR (vec_at cf (int i)) (\<lambda>v.
             if \<not> isNull (of_int v) True then
               bindR (indexCatStats a (int i) j (v \<le> j)) (\<lambda>col_index.
               updateStats a is_reg True ri col_index y w)
             else Inr a)) [0..n_levels - 1] a = Inr a'"
    by (auto simp: update_cat_feature_def bindR_eq_Inr)
  have "foldR (\<lambda>j a. bindR (vec_at cf (int i)) (\<lambda>v.
             if \<not> isNull (of_int v) True then
               bindR (indexCatStats a (int i) j (v \<le> j)) (\<lambda>col_index.
               updateStats a is_reg True ri col_index y w)
             else Inr a)) [0..n_levels - 1] (shift_stats C N D k a) = Inr (shift_stats C N D k a')
         \<and> shiftable C N D a' \<and> framed a a'"
  proof (rule foldR_shift [OF _ f sh])
    fix j b b'
    assume b: "bindR (vec_at cf (int i)) (\<lambda>v.
             if \<not> isNull (of_int v) True then
               bindR (indexCatStats b (int i) j (v \<le> j)) (\<lambda>col_index.
               updateStats b is_reg True ri col_index y w)
             else Inr b) = Inr b'" and s: "shiftable C N D b"
    from b obtain v where v: "vec_at cf (int i) = Inr v" by (auto simp: bindR_eq_Inr)
    show "bindR (vec_at cf (int i)) (\<lambda>v.
             if \<not> isNull (of_int v) True then
               bindR (indexCatStats (shift_stats C N D k b) (int i) j (v \<le> j)) (\<lambda>col_index.
               updateStats (shift_stats C N D k b) is_reg True ri col_index y w)
             else Inr (shift_stats C N D k b)) = Inr (shift_stats C N D k b')
          \<and> shiftable C N D b' \<and> framed b b'"
    proof (cases "isNull (of_int v) True")
      case True
      with b v s show ?thesis by simp
    next
      case False
      with b v obtain c where c: "indexCatStats b (int i) j (v \<le> j) = Inr c"
        and u: "updateStats b is_reg True ri c y w = Inr b'"
        by (auto simp: bindR_eq_Inr)
      from updateStats_shift [OF u s, of k] False v c show ?thesis by simp
    qed
  qed
  then show ?thesis by (simp add: update_cat_feature_def n)
qed

lemma update_con_feature_shift:
  assumes run: "update_con_feature isNull is_reg ri cf cs y w i a = Inr a'"
    and sh: "shiftable C N D a"
  shows "update_con_feature isNull is_reg ri cf cs y w i (shift_stats C N D k a)
           = Inr (shift_stats C N D k a')
         \<and> shiftable C N D a' \<and> framed a a'"
proof -
  from run have f: "foldR (\<lambda>j a. bindR (vec_at cf (int i)) (\<lambda>v.
           if \<not> isNull v False then
             bindR (mat_at cs (int i) j) (\<lambda>boundary.
             bindR (indexConStats a (int i) j (v \<le> boundary)) (\<lambda>col_index.
             updateStats a is_reg False ri col_index y w))
           else Inr a)) [0..int (n_bins a) - 1] a = Inr a'"
    by (simp add: update_con_feature_def)
  have "foldR (\<lambda>j a. bindR (vec_at cf (int i)) (\<lambda>v.
           if \<not> isNull v False then
             bindR (mat_at cs (int i) j) (\<lambda>boundary.
             bindR (indexConStats a (int i) j (v \<le> boundary)) (\<lambda>col_index.
             updateStats a is_reg False ri col_index y w))
           else Inr a)) [0..int (n_bins a) - 1] (shift_stats C N D k a)
          = Inr (shift_stats C N D k a')
         \<and> shiftable C N D a' \<and> framed a a'"
  proof (rule foldR_shift [OF _ f sh])
    fix j b b'
    assume b: "bindR (vec_at cf (int i)) (\<lambda>v.
           if \<not> isNull v False then
             bindR (mat_at cs (int i) j) (\<lambda>boundary.
             bindR (indexConStats b (int i) j (v \<le> boundary)) (\<lambda>col_index.
             updateStats b is_reg False ri col_index y w))
           else Inr b) = Inr b'" and s: "shiftable C N D b"
    from b obtain v where v: "vec_at cf (int i) = Inr v" by (auto simp: bindR_eq_Inr)
    show "bindR (vec_at cf (int i)) (\<lambda>v.
           if \<not> isNull v False then
             bindR (mat_at cs (int i) j) (\<lambda>boundary.
             bindR (indexConStats (shift_stats C N D k b) (int i) j (v \<le> boundary)) (\<lambda>col_index.
             updateStats (shift_stats C N D k b) is_reg False ri col_index y w))
           else Inr (shift_stats C N D k b)) = Inr (shift_stats C N D k b')
          \<and> shiftable C N D b' \<and> framed b b'"
    proof (cases "isNull v False")
      case True
      with b v s show ?thesis by simp
    next
      case False
      with b v obtain bd c where bd: "mat_at cs (int i) j = Inr bd"
        and c: "indexConStats b (int i) j (v \<le> bd) = Inr c"
        and u: "updateStats b is_reg False ri c y w = Inr b'"
        by (auto simp: bindR_eq_Inr)
      from updateStats_shift [OF u s, of k] False v bd c show ?thesis by simp
    qed
  qed
  then show ?thesis by (simp add: update_con_feature_def)
qed

lemma accumulate_shift:
  assumes run: "accumulate isNull a r = Inr d" and nt: "\<not> terminated d"
    and sh: "shiftable C N D a"
  shows "accumulate isNull (shift_stats C N D k a) r
           = Inr (shift_stats C N D ((k + 1) mod 2 ^ 64) d)
         \<and> shiftable C N D d \<and> framed a d \<and> \<not> terminated a"
proof -
  obtain dt cf nf resp w cl cs where r: "r = (dt, cf, nf, resp, w, cl, cs)"
    by (cases r)
  have ta: "\<not> terminated a"
  proof
    assume "terminated a"
    then have "accumulate isNull a r = Inr a" by (simp add: accumulate_def r)
    with run nt \<open>terminated a\<close> show False by simp
  qed
  have "resp \<noteq> None"
  proof
    assume "resp = None"
    with ta have "accumulate isNull a r = Inr (a\<lparr>terminated := True\<rparr>)"
      by (simp add: accumulate_def r)
    with run nt show False by auto
  qed
  then obtain y where y: "resp = Some y" by auto
  have c: "\<not> length cf + length nf > 65535 \<and> n_cat_features a = length cf mod 65536
           \<and> n_con_features a = length nf mod 65536"
  proof (rule ccontr)
    assume "\<not> ?thesis"
    with ta have "accumulate isNull a r = Inr (a\<lparr>terminated := True\<rparr>)"
      by (auto simp: accumulate_def r y)
    with run nt show False by auto
  qed
  define upd where "upd b idx =
      (let row_index = idx - (int (n_leaf_nodes a) - 1) mod 65536 in
       if row_index < 0 then Inl AssertionFailed
       else
         bindR (updateNodeStats b (is_regression dt) row_index y w) (\<lambda>a1.
         bindR (foldR (update_cat_feature isNull (is_regression dt) row_index cf cl y w)
                  [0..<n_cat_features a] a1) (\<lambda>a2.
         foldR (update_con_feature isNull (is_regression dt) row_index nf cs y w)
           [0..<n_con_features a] a2)))" for b idx
  have acc: "accumulate isNull b r =
      bindR (search isNull dt cf nf) (\<lambda>idx.
      bindR (vec_at (feature_indices dt) idx) (\<lambda>f.
      bindR (if f \<noteq> FINISHED_LEAF \<and> f \<noteq> NODE_NON_EXISTING then upd b idx else Inr b) (\<lambda>a'.
      Inr (a'\<lparr>n_rows := (n_rows a' + 1) mod 2 ^ 64\<rparr>))))"
    if "\<not> terminated b" "n_cat_features b = n_cat_features a"
      "n_con_features b = n_con_features a" "n_leaf_nodes b = n_leaf_nodes a" for b
    using that c by (simp add: accumulate_def r y upd_def Let_def cong: if_cong)
  from run [unfolded acc [OF ta refl refl refl]]
  obtain idx f a' where idx: "search isNull dt cf nf = Inr idx"
    and f: "vec_at (feature_indices dt) idx = Inr f"
    and br: "(if f \<noteq> FINISHED_LEAF \<and> f \<noteq> NODE_NON_EXISTING then upd a idx else Inr a) = Inr a'"
    and d: "d = a'\<lparr>n_rows := (n_rows a' + 1) mod 2 ^ 64\<rparr>"
    unfolding bindR_eq_Inr by auto
  have main: "(if f \<noteq> FINISHED_LEAF \<and> f \<noteq> NODE_NON_EXISTING
               then upd (shift_stats C N D k a) idx else Inr (shift_stats C N D k a))
                = Inr (shift_stats C N D k a')
              \<and> shiftable C N D a' \<and> framed a a'"
  proof (cases "f \<noteq> FINISHED_LEAF \<and> f \<noteq> NODE_NON_EXISTING")
    case False
    with br sh show ?thesis by auto
  next
    case True
    define ri where "ri = idx - (int (n_leaf_nodes a) - 1) mod 65536"
    from br True have u: "upd a idx = Inr a'" by simp
    have neg: "\<not> ri < 0"
    proof
      assume "ri < 0"
      then have "upd a idx = Inl AssertionFailed" by (simp add: upd_def ri_def)
      with u show False by simp
    qed
    from u neg obtain a1 a2 where
      a1: "updateNodeStats a (is_regression dt) ri y w = Inr a1"
      and a2: "foldR (update_cat_feature isNull (is_regression dt) ri cf cl y w)
                  [0..<n_cat_features a] a1 = Inr a2"
      and a3: "foldR (update_con_feature isNull (is_regression dt) ri nf cs y w)
                  [0..<n_con_features a] a2 = Inr a'"
      unfolding upd_def ri_def [symmetric] Let_def by (auto simp: bindR_eq_Inr)
    note s1 = updateNodeStats_shift [OF a1 sh, of k]
    from s1 have sh1: "shiftable C N D a1" by simp
    have s2: "foldR (update_cat_feature isNull (is_regression dt) ri cf cl y w)
                  [0..<n_cat_features a] (shift_stats C N D k a1) = Inr (shift_stats C N D k a2)
              \<and> shiftable C N D a2 \<and> framed a1 a2"
      by (rule foldR_shift [OF _ a2 sh1]) (rule update_cat_feature_shift)
    from s2 have sh2: "shiftable C N D a2" by simp
    have s3: "foldR (update_con_feature isNull (is_regression dt) ri nf cs y w)
                  [0..<n_con_features a] (shift_stats C N D k a2) = Inr (shift_stats C N D k a')
              \<and> shiftable C N D a' \<and> framed a2 a'"
      by (rule foldR_shift [OF _ a3 sh2]) (rule update_con_feature_shift)
    have "upd (shift_stats C N D k a) idx = Inr (shift_stats C N D k a')"
      using neg s1 s2 s3 unfolding upd_def ri_def [symmetric] Let_def by simp
    moreover have "framed a a'" using s1 s2 s3 by (blast intro: framed_trans)
    ultimately show ?thesis using True s3 by simp
  qed
  from main have fr: "framed a a'" by simp
  have "accumulate isNull (shift_stats C N D k a) r
          = Inr ((shift_stats C N D k a')\<lparr>n_rows := (k + 1) mod 2 ^ 64\<rparr>)"
    using ta main by (simp add: acc idx f)
  moreover have "(shift_stats C N D k a')\<lparr>n_rows := (k + 1) mod 2 ^ 64\<rparr>
                   = shift_stats C N D ((k + 1) mod 2 ^ 64) d"
    by (simp add: shift_stats_def d)
  moreover have "shiftable C N D d" using main by (simp add: shiftable_def d)
  moreover have "framed a d"
    by (rule framed_trans [OF fr]) (simp add: d)
  ultimately show ?thesis using ta by simp
qed

lemma feed_simps [simp]:
  "feed isNull a [] = Inr a"
  "feed isNull a (r # rs) = bindR (accumulate isNull a r) (\<lambda>b. feed isNull b rs)"
  by (simp_all add: feed_def)

lemma accumulate_terminated: "terminated a \<Longrightarrow> accumulate isNull a r = Inr a"
  by (cases r) (simp add: accumulate_def)

lemma feed_terminated: "terminated a \<Longrightarrow> feed isNull a rs = Inr a"
  by (induction rs) (simp_all add: accumulate_terminated)

lemma feed_shift:
  assumes run: "feed isNull a rs = Inr d" and nt: "\<not> terminated d"
    and sh: "shiftable C N D a" and k: "k < 2 ^ 64"
  shows "feed isNull (shift_stats C N D k a) rs
           = Inr (shift_stats C N D ((k + length rs) mod 2 ^ 64) d)
         \<and> shiftable C N D d \<and> framed a d \<and> \<not> terminated a"
  using run sh k
proof (induction rs arbitrary: a k)
  case Nil
  then show ?case using nt by simp
next
  case (Cons r rs)
  from Cons.prems(1) obtain b where b: "accumulate isNull a r = Inr b"
    and rest: "feed isNull b rs = Inr d"
    by (auto simp: bindR_eq_Inr)
  have ntb: "\<not> terminated b"
  proof
    assume "terminated b"
    from feed_terminated [OF this, of isNull rs] rest nt \<open>terminated b\<close> show False by simp
  qed
  note s1 = accumulate_shift [OF b ntb Cons.prems(2), of k]
  from s1 have shb: "shiftable C N D b" by simp
  have "(k + 1) mod 2 ^ 64 < (2 ^ 64 :: nat)" by simp
  note s2 = Cons.IH [OF rest shb this]
  have "((k + 1) mod 2 ^ 64 + length rs) mod 2 ^ 64 = (k + length (r # rs)) mod (2 ^ 64 :: nat)"
    by (simp add: mod_simps)
  moreover from s1 s2 have "framed a d" by (blast intro: framed_trans)
  ultimately show ?case using s1 s2 by simp
qed






















subsection \<open>A plan of three shards\<close>




















end
